theory Spec2Isabelle
  imports Complex_Main "HOL-Library.Word"
begin

section \<open>Persistent-memory leaf simulators: cost meter, leaves, PMwCAS, drivers\<close>

text \<open>
  The development embeds the six simulators of the repository:
  \<^item> \<^verbatim>\<open>article1_sorted_unsorted.cpp\<close>: array leaves of 128 keys, sorted insert with shifts and
    unsorted append, process-wide counters;
  \<^item> \<^verbatim>\<open>article2_wbtree.cpp\<close>: array leaves of 32 keys (volatile, logging, wB+-Tree style);
  \<^item> \<^verbatim>\<open>article3_bztree.cpp\<close>: the toy PMwCAS and the BzTree style leaf built on it;
  \<^item> the three \<^verbatim>\<open>*_extension.cpp\<close> files: vector-backed leaves with fixed cost coefficients
    and the mixed read/write workload driver.
  Keys and counters are \<^verbatim>\<open>uint64_t\<close>, hence 64-bit words whose addition wraps; the
  \<^verbatim>\<open>int\<close> fields and loop indices are integers (they stay within the capacity, far from the
  32-bit range).
\<close>

subsection \<open>The cost meter\<close>

type_synonym u64 = "64 word"

record Stats =
  Nw :: u64
  Nclf :: u64
  Nmf :: u64

definition Stats0 :: Stats where
  "Stats0 = \<lparr>Nw = 0, Nclf = 0, Nmf = 0\<rparr>"

definition pcm_write :: "Stats \<Rightarrow> u64 \<Rightarrow> Stats" where
  "pcm_write s w = s\<lparr>Nw := Nw s + w\<rparr>"

definition pcm_flush :: "Stats \<Rightarrow> Stats" where
  "pcm_flush s = s\<lparr>Nclf := Nclf s + 1\<rparr>"

definition pcm_fence :: "Stats \<Rightarrow> Stats" where
  "pcm_fence s = s\<lparr>Nmf := Nmf s + 1\<rparr>"

subsection \<open>Array leaves\<close>

text \<open>
  \<^verbatim>\<open>struct LeafNode { uint64_t keys[CAP]; int count = 0; }\<close>: the array is a list whose
  length is the capacity, the slots at and after \<open>count\<close> hold whatever the memory held.
\<close>

record LeafNode =
  keys :: "u64 list"
  count :: int

definition CAP :: int where
  "CAP = 32"

definition CAP128 :: int where
  "CAP128 = 128"

definition new_leaf :: "u64 list \<Rightarrow> LeafNode" where
  "new_leaf arr = \<lparr>keys = arr, count = 0\<rparr>"

definition contents :: "LeafNode \<Rightarrow> u64 list" where
  "contents L = take (nat (count L)) (keys L)"

subsection \<open>Toy PMwCAS (article3\_bztree.cpp)\<close>

text \<open>
  A descriptor entry holds a pointer to a 64-bit word and the value to store there. The only
  words the program ever points a descriptor at are the words of its leaf: a key slot, or
  the word at the address of \<open>count\<close>. The store through \<^verbatim>\<open>(uint64_t*)&leaf.count\<close> covers
  the 32-bit \<open>count\<close> and the padding behind it; on the little-endian targets of the
  simulator \<open>count\<close> receives the low half of the value, read as a signed 32-bit integer.
\<close>

datatype addr = KeyAddr int | CountAddr

record PMwCAS_Entry =
  addr_of :: addr
  new_val :: u64

record PMwCAS_Descriptor =
  entries :: "PMwCAS_Entry list"

fun poke :: "addr \<Rightarrow> u64 \<Rightarrow> LeafNode \<Rightarrow> LeafNode" where
  "poke (KeyAddr i) v L = L\<lparr>keys := (keys L)[nat i := v]\<rparr>"
| "poke CountAddr v L = L\<lparr>count := sint (ucast v :: 32 word)\<rparr>"

text \<open>The loop \<^verbatim>\<open>for (auto &e : desc.entries) { *(e.addr) = e.new_val; pcm_write(s); }\<close>.\<close>

fun apply_entries :: "PMwCAS_Entry list \<Rightarrow> LeafNode \<Rightarrow> Stats \<Rightarrow> LeafNode \<times> Stats" where
  "apply_entries [] L s = (L, s)"
| "apply_entries (e # es) L s =
     apply_entries es (poke (addr_of e) (new_val e) L) (pcm_write s 1)"

definition pmwcas :: "PMwCAS_Descriptor \<Rightarrow> LeafNode \<Rightarrow> Stats \<Rightarrow> bool \<times> LeafNode \<times> Stats" where
  "pmwcas desc L s =
     (let s1 = pcm_fence (pcm_flush (pcm_write s 2));
          (L2, s2) = apply_entries (entries desc) L s1;
          s3 = pcm_fence (pcm_flush s2)
      in (True, L2, s3))"

definition bztree_descriptor :: "LeafNode \<Rightarrow> u64 \<Rightarrow> PMwCAS_Descriptor" where
  "bztree_descriptor leaf key =
     \<lparr>entries = [\<lparr>addr_of = KeyAddr (count leaf), new_val = key\<rparr>,
                 \<lparr>addr_of = CountAddr, new_val = word_of_int (count leaf + 1)\<rparr>]\<rparr>"

definition bztree_insert :: "u64 \<Rightarrow> LeafNode \<Rightarrow> Stats \<Rightarrow> LeafNode \<times> Stats" where
  "bztree_insert key leaf s =
     (if count leaf \<ge> CAP then (leaf, s)
      else (let (r, leaf', s') = pmwcas (bztree_descriptor leaf key) leaf s in (leaf', s')))"

text \<open>\<^verbatim>\<open>search_leaf\<close>: the scan \<^verbatim>\<open>for (int i = 0; i < leaf.count; i++)\<close>.\<close>

function scan_from :: "u64 list \<Rightarrow> int \<Rightarrow> u64 \<Rightarrow> int \<Rightarrow> bool" where
  "scan_from ks n key i =
     (if i < n then (if ks ! nat i = key then True else scan_from ks n key (i + 1))
      else False)"
  by pat_completeness auto
termination
  by (relation "measure (\<lambda>(ks, n, key, i). nat (n - i))") auto

declare scan_from.simps [simp del]

definition search_leaf :: "LeafNode \<Rightarrow> u64 \<Rightarrow> bool" where
  "search_leaf leaf key = scan_from (keys leaf) (count leaf) key 0"

subsection \<open>Sorted and unsorted array leaves (article1\_sorted\_unsorted.cpp, article2\_wbtree.cpp)\<close>

text \<open>
  The two loops of a sorted insert, written three times in the sources
  (\<^verbatim>\<open>insert_sorted\<close>, \<^verbatim>\<open>LeafBTreeVolatile::insert\<close>, \<^verbatim>\<open>LeafBTreeLog::insert\<close>):
  \<^verbatim>\<open>while (pos < count && keys[pos] < k) ++pos;\<close> and
  \<^verbatim>\<open>for (int i = count; i > pos; --i) { keys[i] = keys[i - 1]; pcm_write(s); }\<close>.
\<close>

function find_pos :: "u64 list \<Rightarrow> int \<Rightarrow> u64 \<Rightarrow> int \<Rightarrow> int" where
  "find_pos ks n k pos =
     (if pos < n \<and> ks ! nat pos < k then find_pos ks n k (pos + 1) else pos)"
  by pat_completeness auto
termination
  by (relation "measure (\<lambda>(ks, n, k, pos). nat (n - pos))") auto

declare find_pos.simps [simp del]

function shift_right :: "int \<Rightarrow> int \<Rightarrow> u64 list \<Rightarrow> Stats \<Rightarrow> u64 list \<times> Stats" where
  "shift_right pos i ks s =
     (if i > pos then shift_right pos (i - 1) (ks[nat i := ks ! nat (i - 1)]) (pcm_write s 1)
      else (ks, s))"
  by pat_completeness auto
termination
  by (relation "measure (\<lambda>(pos, i, ks, s). nat (i - pos))") auto

declare shift_right.simps [simp del]

definition insert_sorted :: "u64 \<Rightarrow> LeafNode \<Rightarrow> Stats \<Rightarrow> LeafNode \<times> Stats" where
  "insert_sorted key leaf s =
     (if count leaf \<ge> CAP128 then (leaf, s)
      else (let pos = find_pos (keys leaf) (count leaf) key 0;
                (ks, s1) = shift_right pos (count leaf) (keys leaf) s
            in (\<lparr>keys = ks[nat pos := key], count = count leaf + 1\<rparr>,
                pcm_fence (pcm_flush (pcm_write s1 1)))))"

definition insert_unsorted :: "u64 \<Rightarrow> LeafNode \<Rightarrow> Stats \<Rightarrow> LeafNode \<times> Stats" where
  "insert_unsorted key leaf s =
     (if count leaf \<ge> CAP128 then (leaf, s)
      else (\<lparr>keys = (keys leaf)[nat (count leaf) := key], count = count leaf + 1\<rparr>,
            pcm_fence (pcm_flush (pcm_write s 1))))"

definition LeafBTreeVolatile_insert :: "u64 \<Rightarrow> LeafNode \<Rightarrow> Stats \<Rightarrow> LeafNode \<times> Stats" where
  "LeafBTreeVolatile_insert k leaf s =
     (if count leaf \<ge> CAP then (leaf, s)
      else (let pos = find_pos (keys leaf) (count leaf) k 0;
                (ks, s1) = shift_right pos (count leaf) (keys leaf) s
            in (\<lparr>keys = ks[nat pos := k], count = count leaf + 1\<rparr>, pcm_write s1 1)))"

definition LeafBTreeLog_insert :: "u64 \<Rightarrow> LeafNode \<Rightarrow> Stats \<Rightarrow> LeafNode \<times> Stats" where
  "LeafBTreeLog_insert k leaf s =
     (if count leaf \<ge> CAP then (leaf, s)
      else (let s0 = pcm_fence (pcm_flush (pcm_write s 4));
                pos = find_pos (keys leaf) (count leaf) k 0;
                (ks, s1) = shift_right pos (count leaf) (keys leaf) s0
            in (\<lparr>keys = ks[nat pos := k], count = count leaf + 1\<rparr>,
                pcm_fence (pcm_flush (pcm_write s1 1)))))"

definition LeafWBTree_insert :: "u64 \<Rightarrow> LeafNode \<Rightarrow> Stats \<Rightarrow> LeafNode \<times> Stats" where
  "LeafWBTree_insert k leaf s =
     (if count leaf \<ge> CAP then (leaf, s)
      else (let idx = count leaf
            in (\<lparr>keys = (keys leaf)[nat idx := k], count = count leaf + 1\<rparr>,
                pcm_fence (pcm_flush (pcm_write s 2)))))"

text \<open>
  The binary search of \<^verbatim>\<open>LeafBTreeVolatile::search\<close> and \<^verbatim>\<open>LeafBTreeLog::search\<close>. The
  division of C++ truncates towards zero.
\<close>

definition half :: "int \<Rightarrow> int" where
  "half x = (if 0 \<le> x then x div 2 else - ((- x) div 2))"

function bsearch :: "u64 list \<Rightarrow> u64 \<Rightarrow> int \<Rightarrow> int \<Rightarrow> bool" where
  "bsearch ks k lo hi =
     (if lo \<le> hi then
        (let mid = half (lo + hi) in
         if ks ! nat mid = k then True
         else if ks ! nat mid < k then bsearch ks k (mid + 1) hi
         else bsearch ks k lo (mid - 1))
      else False)"
  by pat_completeness auto
termination
  by (relation "measure (\<lambda>(ks, k, lo, hi). nat (hi - lo + 1))") (auto simp: half_def)

declare bsearch.simps [simp del]

text \<open>
  The \<open>search\<close> members take the meter by reference and are \<open>const\<close> on the leaf: they
  return the answer and the meter.
\<close>

definition LeafBTreeVolatile_search :: "u64 \<Rightarrow> LeafNode \<Rightarrow> Stats \<Rightarrow> bool \<times> Stats" where
  "LeafBTreeVolatile_search k leaf s = (bsearch (keys leaf) k 0 (count leaf - 1), s)"

definition LeafBTreeLog_search :: "u64 \<Rightarrow> LeafNode \<Rightarrow> Stats \<Rightarrow> bool \<times> Stats" where
  "LeafBTreeLog_search k leaf s = (bsearch (keys leaf) k 0 (count leaf - 1), s)"

definition LeafWBTree_search :: "u64 \<Rightarrow> LeafNode \<Rightarrow> Stats \<Rightarrow> bool \<times> Stats" where
  "LeafWBTree_search k leaf s = (scan_from (keys leaf) (count leaf) k 0, s)"

subsection \<open>Vector-backed leaves (the extension simulators)\<close>

text \<open>
  \<^verbatim>\<open>std::lower_bound\<close> on a range partitioned by \<open>x < key\<close> returns the first position whose
  element is not below the key; \<^verbatim>\<open>keys.insert(it, key)\<close> puts the key before that position.
\<close>

definition lower_bound :: "u64 list \<Rightarrow> u64 \<Rightarrow> nat" where
  "lower_bound ks key = length (takeWhile (\<lambda>x. x < key) ks)"

definition vec_insert :: "nat \<Rightarrow> u64 \<Rightarrow> u64 list \<Rightarrow> u64 list" where
  "vec_insert i key ks = take i ks @ key # drop i ks"

definition lower_bound_insert :: "u64 \<Rightarrow> u64 list \<Rightarrow> u64 list" where
  "lower_bound_insert key ks = vec_insert (lower_bound ks key) key ks"

definition lower_bound_search :: "u64 \<Rightarrow> u64 list \<Rightarrow> bool" where
  "lower_bound_search key ks = (let i = lower_bound ks key in i \<noteq> length ks \<and> ks ! i = key)"

definition charge :: "u64 \<Rightarrow> u64 \<Rightarrow> u64 \<Rightarrow> Stats \<Rightarrow> Stats" where
  "charge w f m s = s\<lparr>Nw := Nw s + w, Nclf := Nclf s + f, Nmf := Nmf s + m\<rparr>"

fun vec_scan :: "u64 list \<Rightarrow> u64 \<Rightarrow> bool" where
  "vec_scan [] key = False"
| "vec_scan (k # ks) key = (if k = key then True else vec_scan ks key)"

definition UnsortedLeaf_insert :: "u64 \<Rightarrow> u64 list \<Rightarrow> Stats \<Rightarrow> u64 list \<times> Stats" where
  "UnsortedLeaf_insert key ks s = (ks @ [key], charge 1 1 1 s)"

definition UnsortedLeaf_search :: "u64 \<Rightarrow> u64 list \<Rightarrow> Stats \<Rightarrow> bool \<times> Stats" where
  "UnsortedLeaf_search key ks s = (vec_scan ks key, s)"

definition SortedLeaf_insert :: "u64 \<Rightarrow> u64 list \<Rightarrow> Stats \<Rightarrow> u64 list \<times> Stats" where
  "SortedLeaf_insert key ks s = (lower_bound_insert key ks, charge 4 2 1 s)"

definition SortedLeaf_search :: "u64 \<Rightarrow> u64 list \<Rightarrow> Stats \<Rightarrow> bool \<times> Stats" where
  "SortedLeaf_search key ks s = (lower_bound_search key ks, s)"

definition LeafBaseline_insert :: "u64 \<Rightarrow> u64 list \<Rightarrow> Stats \<Rightarrow> u64 list \<times> Stats" where
  "LeafBaseline_insert key ks s = (lower_bound_insert key ks, charge 4 2 1 s)"

definition LeafBaseline_search :: "u64 \<Rightarrow> u64 list \<Rightarrow> Stats \<Rightarrow> bool \<times> Stats" where
  "LeafBaseline_search key ks s = (lower_bound_search key ks, s)"

definition LeafLogging_insert :: "u64 \<Rightarrow> u64 list \<Rightarrow> Stats \<Rightarrow> u64 list \<times> Stats" where
  "LeafLogging_insert key ks s = (lower_bound_insert key ks, charge 8 4 2 s)"

definition LeafLogging_search :: "u64 \<Rightarrow> u64 list \<Rightarrow> Stats \<Rightarrow> bool \<times> Stats" where
  "LeafLogging_search key ks s = (lower_bound_search key ks, s)"

definition LeafWBTreeVec_insert :: "u64 \<Rightarrow> u64 list \<Rightarrow> Stats \<Rightarrow> u64 list \<times> Stats" where
  "LeafWBTreeVec_insert key ks s = (lower_bound_insert key ks, charge 2 1 1 s)"

definition LeafWBTreeVec_search :: "u64 \<Rightarrow> u64 list \<Rightarrow> Stats \<Rightarrow> bool \<times> Stats" where
  "LeafWBTreeVec_search key ks s = (lower_bound_search key ks, s)"

definition BzLeaf_insert :: "u64 \<Rightarrow> u64 list \<Rightarrow> Stats \<Rightarrow> u64 list \<times> Stats" where
  "BzLeaf_insert key ks s = (lower_bound_insert key ks, charge 3 3 2 s)"

definition BzLeaf_search :: "u64 \<Rightarrow> u64 list \<Rightarrow> Stats \<Rightarrow> bool \<times> Stats" where
  "BzLeaf_search key ks s = (lower_bound_search key ks, s)"

definition SimpleLeaf_insert :: "u64 \<Rightarrow> u64 list \<Rightarrow> Stats \<Rightarrow> u64 list \<times> Stats" where
  "SimpleLeaf_insert key ks s = (lower_bound_insert key ks, charge 4 2 1 s)"

definition SimpleLeaf_search :: "u64 \<Rightarrow> u64 list \<Rightarrow> Stats \<Rightarrow> bool \<times> Stats" where
  "SimpleLeaf_search key ks s = (lower_bound_search key ks, s)"

text \<open>A sequence of insert calls on one leaf and one meter, in order.\<close>

fun insert_all :: "(u64 \<Rightarrow> 'l \<Rightarrow> Stats \<Rightarrow> 'l \<times> Stats) \<Rightarrow> u64 list \<Rightarrow> 'l \<Rightarrow> Stats \<Rightarrow> 'l \<times> Stats" where
  "insert_all ins [] leaf s = (leaf, s)"
| "insert_all ins (k # ks) leaf s = (let (leaf1, s1) = ins k leaf s in insert_all ins ks leaf1 s1)"

subsection \<open>The mixed-workload driver (the extension simulators)\<close>

text \<open>
  \<^verbatim>\<open>template<typename LeafType> run_mixed_workload\<close> is instantiated with a leaf type: its
  default-constructed value and its two members.
\<close>

record 'l LeafType =
  fresh :: 'l
  insert_op :: "u64 \<Rightarrow> 'l \<Rightarrow> Stats \<Rightarrow> 'l \<times> Stats"
  search_op :: "u64 \<Rightarrow> 'l \<Rightarrow> Stats \<Rightarrow> bool \<times> Stats"

text \<open>
  The random source is the standard library's: \<^verbatim>\<open>std::mt19937_64\<close> seeded with a constant,
  drawn through \<^verbatim>\<open>uniform_int_distribution<uint64_t>(1, 1000000000)\<close> and
  \<^verbatim>\<open>uniform_real_distribution<double>(0.0, 1.0)\<close>. The engine is a parameter: a state type,
  the seeding and the two draws, each returning the value and the next state.
\<close>

record 'g Rng =
  seeded :: "u64 \<Rightarrow> 'g"
  dist_key :: "'g \<Rightarrow> u64 \<times> 'g"
  dist01 :: "'g \<Rightarrow> real \<times> 'g"

text \<open>
  A \<^verbatim>\<open>double\<close> that results from a division: finite, infinite or not a number. A finite
  double is the real it denotes. Every conversion to \<^verbatim>\<open>double\<close> and every division rounds its
  exact result to a double: the rounding \<open>rnd\<close> is a parameter. (The quotient of a 64-bit
  count by a duration of a nanosecond or more is far below the largest double, so a division
  by a non-zero duration does not overflow.)
\<close>

datatype double = Finite real | PlusInf | MinusInf | NaN

definition fdiv :: "(real \<Rightarrow> real) \<Rightarrow> real \<Rightarrow> real \<Rightarrow> double" where
  "fdiv rnd x y =
     (if y \<noteq> 0 then Finite (rnd (x / y))
      else if x = 0 then NaN
      else if 0 < x then PlusInf else MinusInf)"

text \<open>
  What the properties below use of the rounding to double: it is monotone, and it is exact at
  0, 1, -1 and at plus and minus \<open>2 ^ -30\<close>, which are doubles.
\<close>

definition double_rounding :: "(real \<Rightarrow> real) \<Rightarrow> bool" where
  "double_rounding rnd =
     ((\<forall>x y. x \<le> y \<longrightarrow> rnd x \<le> rnd y) \<and> rnd 0 = 0 \<and> rnd 1 = 1 \<and> rnd (- 1) = - 1 \<and>
      rnd (1 / 2 ^ 30) = 1 / 2 ^ 30 \<and> rnd (- (1 / 2 ^ 30)) = - (1 / 2 ^ 30))"

text \<open>
  The two readings of \<^verbatim>\<open>high_resolution_clock::now()\<close> are inputs, in ticks of a nanosecond;
  \<^verbatim>\<open>duration<double>\<close> turns their difference into seconds: the tick count is converted to
  \<^verbatim>\<open>double\<close> and divided by \<open>10 ^ 9\<close>.
\<close>

definition elapsed_seconds :: "(real \<Rightarrow> real) \<Rightarrow> int \<Rightarrow> int \<Rightarrow> real" where
  "elapsed_seconds rnd t0 t1 = rnd (rnd (real_of_int (t1 - t0)) / 1000000000)"

record MixedResult =
  throughput_ops_sec :: double
  stats :: Stats

text \<open>\<^verbatim>\<open>for (uint64_t i = 0; i < prefill; ++i) leaf.insert(dist_key(rng), stats);\<close>\<close>

fun prefill_loop :: "'l LeafType \<Rightarrow> 'g Rng \<Rightarrow> nat \<Rightarrow> 'l \<times> Stats \<times> 'g \<Rightarrow> 'l \<times> Stats \<times> 'g" where
  "prefill_loop T R 0 st = st"
| "prefill_loop T R (Suc n) (leaf, st, g) =
     (let (key, g1) = dist_key R g;
          (leaf1, st1) = insert_op T key leaf st
      in prefill_loop T R n (leaf1, st1, g1))"

text \<open>The timed loop: draw \<open>r\<close>, then the key; insert when \<open>r < write_ratio\<close>, else search.\<close>

fun timed_loop :: "'l LeafType \<Rightarrow> 'g Rng \<Rightarrow> real \<Rightarrow> nat \<Rightarrow> 'l \<times> Stats \<times> 'g \<Rightarrow> 'l \<times> Stats \<times> 'g" where
  "timed_loop T R write_ratio 0 st = st"
| "timed_loop T R write_ratio (Suc n) (leaf, st, g) =
     (let (r, g1) = dist01 R g;
          (key, g2) = dist_key R g1
      in if r < write_ratio
         then (let (leaf1, st1) = insert_op T key leaf st
               in timed_loop T R write_ratio n (leaf1, st1, g2))
         else (let (found, st1) = search_op T key leaf st
               in timed_loop T R write_ratio n (leaf, st1, g2)))"

text \<open>
  One run: the result record, and beside it the leaf as the run leaves it (a local of the
  source, kept here so that properties can speak of it).
\<close>

definition mixed_workload ::
  "(real \<Rightarrow> real) \<Rightarrow> u64 \<Rightarrow> 'l LeafType \<Rightarrow> 'g Rng \<Rightarrow> u64 \<Rightarrow> u64 \<Rightarrow> real \<Rightarrow> int \<Rightarrow> int \<Rightarrow>
     'l \<times> MixedResult" where
  "mixed_workload rnd seed T R prefill num_ops write_ratio t0 t1 =
     (let start = (fresh T, Stats0, seeded R seed);
          filled = prefill_loop T R (unat prefill) start;
          (leaf, st, g) = timed_loop T R write_ratio (unat num_ops) filled;
          elapsed = elapsed_seconds rnd t0 t1
      in (leaf, \<lparr>throughput_ops_sec = fdiv rnd (rnd (real (unat num_ops))) elapsed,
                 stats = st\<rparr>))"

text \<open>The three copies of the driver differ in the seed only: 42, 123 and 321.\<close>

definition run_mixed_workload_article1 ::
  "(real \<Rightarrow> real) \<Rightarrow> 'l LeafType \<Rightarrow> 'g Rng \<Rightarrow> u64 \<Rightarrow> u64 \<Rightarrow> real \<Rightarrow> int \<Rightarrow> int \<Rightarrow>
     'l \<times> MixedResult" where
  "run_mixed_workload_article1 rnd = mixed_workload rnd 42"

definition run_mixed_workload_article2 ::
  "(real \<Rightarrow> real) \<Rightarrow> 'l LeafType \<Rightarrow> 'g Rng \<Rightarrow> u64 \<Rightarrow> u64 \<Rightarrow> real \<Rightarrow> int \<Rightarrow> int \<Rightarrow>
     'l \<times> MixedResult" where
  "run_mixed_workload_article2 rnd = mixed_workload rnd 123"

definition run_mixed_workload_article3 ::
  "(real \<Rightarrow> real) \<Rightarrow> 'l LeafType \<Rightarrow> 'g Rng \<Rightarrow> u64 \<Rightarrow> u64 \<Rightarrow> real \<Rightarrow> int \<Rightarrow> int \<Rightarrow>
     'l \<times> MixedResult" where
  "run_mixed_workload_article3 rnd = mixed_workload rnd 321"

definition UnsortedLeaf :: "u64 list LeafType" where
  "UnsortedLeaf = \<lparr>fresh = [], insert_op = UnsortedLeaf_insert, search_op = UnsortedLeaf_search\<rparr>"

definition SortedLeaf :: "u64 list LeafType" where
  "SortedLeaf = \<lparr>fresh = [], insert_op = SortedLeaf_insert, search_op = SortedLeaf_search\<rparr>"

definition LeafBaseline :: "u64 list LeafType" where
  "LeafBaseline = \<lparr>fresh = [], insert_op = LeafBaseline_insert, search_op = LeafBaseline_search\<rparr>"

definition LeafLogging :: "u64 list LeafType" where
  "LeafLogging = \<lparr>fresh = [], insert_op = LeafLogging_insert, search_op = LeafLogging_search\<rparr>"

definition LeafWBTreeVec :: "u64 list LeafType" where
  "LeafWBTreeVec = \<lparr>fresh = [], insert_op = LeafWBTreeVec_insert, search_op = LeafWBTreeVec_search\<rparr>"

definition BzLeaf :: "u64 list LeafType" where
  "BzLeaf = \<lparr>fresh = [], insert_op = BzLeaf_insert, search_op = BzLeaf_search\<rparr>"

definition SimpleLeaf :: "u64 list LeafType" where
  "SimpleLeaf = \<lparr>fresh = [], insert_op = SimpleLeaf_insert, search_op = SimpleLeaf_search\<rparr>"

text \<open>
  The insert benchmarks of \<^verbatim>\<open>article2_wbtree.cpp\<close> and \<^verbatim>\<open>article3_bztree.cpp\<close> compute
  their throughput the same way: \<^verbatim>\<open>OPS / secs\<close>.
\<close>

definition insert_throughput :: "(real \<Rightarrow> real) \<Rightarrow> nat \<Rightarrow> int \<Rightarrow> int \<Rightarrow> double" where
  "insert_throughput rnd ops t0 t1 = fdiv rnd (rnd (real ops)) (elapsed_seconds rnd t0 t1)"

text \<open>
  A small deterministic engine to run the drivers on: the state counts the draws, keys
  cycle through 1..101 and the reals through 0, 1/4, 1/2, 3/4.
\<close>

definition counter_rng :: "nat Rng" where
  "counter_rng =
     \<lparr>seeded = (\<lambda>w. unat w),
      dist_key = (\<lambda>g. (of_nat ((g * 37) mod 101) + 1, Suc g)),
      dist01 = (\<lambda>g. (real (g mod 4) / 4, Suc g))\<rparr>"

text \<open>A well-formed array leaf: the array has the capacity and the count is within it.\<close>

definition leaf_ok :: "int \<Rightarrow> LeafNode \<Rightarrow> bool" where
  "leaf_ok cap L = (0 \<le> count L \<and> count L \<le> cap \<and> length (keys L) = nat cap)"

section \<open>Properties\<close>

subsection \<open>Cost of the PMwCAS\<close>

lemma apply_entries_Nw:
  "Nw (snd (apply_entries es L s)) = Nw s + of_nat (length es)"
  by (induction es arbitrary: L s) (simp_all add: pcm_write_def add.assoc add.commute)

lemma apply_entries_Nclf: "Nclf (snd (apply_entries es L s)) = Nclf s"
  by (induction es arbitrary: L s) (simp_all add: pcm_write_def)

lemma apply_entries_Nmf: "Nmf (snd (apply_entries es L s)) = Nmf s"
  by (induction es arbitrary: L s) (simp_all add: pcm_write_def)

text \<open>
  C1. Committing a descriptor of \<open>k\<close> entries returns true and adds \<open>2 + k\<close> to the word
  writes, 2 to the flushes and 2 to the fences (additions of 64-bit counters), whatever the
  entries, the leaf and the meter are.
\<close>

theorem pmwcas_cost:
  "fst (pmwcas desc L s) = True \<and>
   Nw (snd (snd (pmwcas desc L s))) = Nw s + 2 + of_nat (length (entries desc)) \<and>
   Nclf (snd (snd (pmwcas desc L s))) = Nclf s + 2 \<and>
   Nmf (snd (snd (pmwcas desc L s))) = Nmf s + 2"
proof -
  let ?s1 = "pcm_fence (pcm_flush (pcm_write s 2))"
  obtain L2 s2 where a: "apply_entries (entries desc) L ?s1 = (L2, s2)"
    by (cases "apply_entries (entries desc) L ?s1")
  have w: "Nw s2 = Nw ?s1 + of_nat (length (entries desc))"
    using apply_entries_Nw [of "entries desc" L ?s1] a by simp
  have f: "Nclf s2 = Nclf ?s1"
    using apply_entries_Nclf [of "entries desc" L ?s1] a by simp
  have m: "Nmf s2 = Nmf ?s1"
    using apply_entries_Nmf [of "entries desc" L ?s1] a by simp
  show ?thesis
    using a w f m by (simp add: pmwcas_def pcm_write_def pcm_flush_def pcm_fence_def)
qed


subsection \<open>The loops of the array leaves\<close>


lemma find_pos_takeWhile:
  "0 \<le> pos \<Longrightarrow> pos \<le> n \<Longrightarrow> nat n \<le> length ks \<Longrightarrow>
   find_pos ks n k pos =
     pos + int (length (takeWhile (\<lambda>x. x < k) (drop (nat pos) (take (nat n) ks))))"
proof (induction ks n k pos rule: find_pos.induct)
  case (1 ks n k pos)
  show ?case
  proof (cases "pos < n")
    case False
    with "1.prems" show ?thesis
      by (subst find_pos.simps) simp
  next
    case True
    with "1.prems" have lt: "nat pos < length (take (nat n) ks)" by simp
    have split: "drop (nat pos) (take (nat n) ks) =
        ks ! nat pos # drop (nat (pos + 1)) (take (nat n) ks)"
      using lt "1.prems" Cons_nth_drop_Suc [OF lt] by (simp add: nat_add_distrib)
    show ?thesis
    proof (cases "ks ! nat pos < k")
      case False
      with split show ?thesis by (subst find_pos.simps) simp
    next
      case lt_k: True
      have "find_pos ks n k pos = find_pos ks n k (pos + 1)"
        using True lt_k by (subst find_pos.simps) simp
      also have "\<dots> = pos + 1 + int (length (takeWhile (\<lambda>x. x < k)
            (drop (nat (pos + 1)) (take (nat n) ks))))"
        using "1.IH" True lt_k "1.prems" by simp
      finally show ?thesis using split lt_k by simp
    qed
  qed
qed

lemma find_pos_0:
  assumes "0 \<le> n" and "nat n \<le> length ks"
  shows "find_pos ks n k 0 = int (length (takeWhile (\<lambda>x. x < k) (take (nat n) ks)))"
  using find_pos_takeWhile [of 0 n ks k] assms by simp

lemma shift_right_spec:
  "0 \<le> pos \<Longrightarrow> pos \<le> i \<Longrightarrow> nat i < length ks \<Longrightarrow>
   length (fst (shift_right pos i ks s)) = length ks \<and>
   (\<forall>j < length ks. fst (shift_right pos i ks s) ! j =
       (if nat pos < j \<and> j \<le> nat i then ks ! (j - 1) else ks ! j)) \<and>
   snd (shift_right pos i ks s) = s\<lparr>Nw := Nw s + of_nat (nat (i - pos))\<rparr>"
proof (induction pos i ks s rule: shift_right.induct)
  case (1 pos i ks s)
  show ?case
  proof (cases "i > pos")
    case False
    with "1.prems" show ?thesis
      by (subst (1 2 3) shift_right.simps) auto
  next
    case True
    let ?ks = "ks[nat i := ks ! nat (i - 1)]"
    let ?s = "pcm_write s 1"
    have step: "shift_right pos i ks s = shift_right pos (i - 1) ?ks ?s"
      using True by (subst shift_right.simps) simp
    have ih: "length (fst (shift_right pos (i - 1) ?ks ?s)) = length ?ks \<and>
      (\<forall>j < length ?ks. fst (shift_right pos (i - 1) ?ks ?s) ! j =
       (if nat pos < j \<and> j \<le> nat (i - 1) then ?ks ! (j - 1) else ?ks ! j)) \<and>
      snd (shift_right pos (i - 1) ?ks ?s) = ?s\<lparr>Nw := Nw ?s + of_nat (nat (i - 1 - pos))\<rparr>"
      using "1.IH" [OF True] "1.prems" True by simp
    have len: "length (fst (shift_right pos i ks s)) = length ks"
      using ih step by simp
    have nth: "\<forall>j < length ks. fst (shift_right pos i ks s) ! j =
       (if nat pos < j \<and> j \<le> nat i then ks ! (j - 1) else ks ! j)"
    proof (intro allI impI)
      fix j assume j: "j < length ks"
      have "fst (shift_right pos i ks s) ! j =
          (if nat pos < j \<and> j \<le> nat (i - 1) then ?ks ! (j - 1) else ?ks ! j)"
        using ih step j by simp
      also have "\<dots> = (if nat pos < j \<and> j \<le> nat i then ks ! (j - 1) else ks ! j)"
      proof (cases "j = nat i")
        case True
        with \<open>pos < i\<close> "1.prems" j show ?thesis
          by (simp add: nat_diff_distrib nat_less_iff)
      next
        case False
        with \<open>pos < i\<close> "1.prems" j show ?thesis
          by (auto simp: nat_diff_distrib nth_list_update)
      qed
      finally show "fst (shift_right pos i ks s) ! j =
         (if nat pos < j \<and> j \<le> nat i then ks ! (j - 1) else ks ! j)" .
    qed
    have "of_nat (nat (i - pos)) = (1 :: u64) + of_nat (nat (i - 1 - pos))"
    proof -
      have "nat (i - pos) = Suc (nat (i - 1 - pos))" using True by simp
      then show ?thesis by simp
    qed
    then have st: "snd (shift_right pos i ks s) = s\<lparr>Nw := Nw s + of_nat (nat (i - pos))\<rparr>"
      using ih step by (simp add: pcm_write_def add.assoc)
    show ?thesis using len nth st by simp
  qed
qed

lemma insort_takeWhile:
  "insort k xs = take (length (takeWhile (\<lambda>x. x < k) xs)) xs @
                 k # drop (length (takeWhile (\<lambda>x. x < k) xs)) xs"
  for k :: "'a :: linorder"
  by (induction xs) (auto simp: not_less)



lemma shift_insert_contents:
  assumes n0: "0 \<le> n" and nlt: "nat n < length ks"
    and pos: "pos = find_pos ks n k 0"
    and sh: "shift_right pos n ks s = (r, s1)"
  shows "take (nat (n + 1)) (r[nat pos := k]) = insort k (take (nat n) ks)"
    and "length r = length ks"
    and "s1 = s\<lparr>Nw := Nw s + of_nat (nat (n - pos))\<rparr>"
    and "0 \<le> pos" and "pos \<le> n"
proof -
  let ?xs = "take (nat n) ks"
  let ?p = "length (takeWhile (\<lambda>x. x < k) ?xs)"
  have p: "pos = int ?p"
    using pos find_pos_0 [of n ks k] n0 nlt by simp
  have ple: "?p \<le> nat n"
    using length_takeWhile_le [of "\<lambda>x. x < k" ?xs] nlt by simp
  show "0 \<le> pos" using p by simp
  show pn: "pos \<le> n" using p ple n0 by linarith
  have spec: "length r = length ks \<and>
     (\<forall>j < length ks. r ! j = (if nat pos < j \<and> j \<le> nat n then ks ! (j - 1) else ks ! j)) \<and>
     s1 = s\<lparr>Nw := Nw s + of_nat (nat (n - pos))\<rparr>"
    using shift_right_spec [of pos n ks s] sh p pn nlt by simp
  show len: "length r = length ks" using spec by simp
  show "s1 = s\<lparr>Nw := Nw s + of_nat (nat (n - pos))\<rparr>" using spec by simp
  have "take (nat (n + 1)) (r[nat pos := k]) = take ?p ?xs @ k # drop ?p ?xs"
  proof (rule nth_equalityI)
    show "length (take (nat (n + 1)) (r[nat pos := k])) = length (take ?p ?xs @ k # drop ?p ?xs)"
      using len nlt n0 ple by (simp add: nat_add_distrib)
  next
    fix j assume "j < length (take (nat (n + 1)) (r[nat pos := k]))"
    then have j: "j \<le> nat n" using len nlt n0 by (simp add: nat_add_distrib)
    then have jl: "j < length ks" using nlt by simp
    have rj: "r ! j = (if ?p < j \<and> j \<le> nat n then ks ! (j - 1) else ks ! j)"
      using spec jl p by simp
    consider "j < ?p" | "j = ?p" | "?p < j" by linarith
    then show "take (nat (n + 1)) (r[nat pos := k]) ! j = (take ?p ?xs @ k # drop ?p ?xs) ! j"
    proof cases
      case 1
      then show ?thesis
        using j jl rj p ple len n0 by (simp add: nth_append nat_add_distrib)
    next
      case 2
      then show ?thesis
        using j jl p ple len n0 by (simp add: nth_append nat_add_distrib)
    next
      case 3
      then obtain d where d: "j = Suc (?p + d)"
        using less_imp_Suc_add by blast
      have pd: "?p + d < nat n" using d j by simp
      have "?p \<le> length ?xs" using ple nlt by simp
      then have "drop ?p ?xs ! d = ?xs ! (?p + d)" by (rule nth_drop)
      also have "\<dots> = ks ! (?p + d)" using pd by simp
      finally have dr: "drop ?p ?xs ! d = ks ! (?p + d)" .
      show ?thesis
        using j jl rj p ple len n0 3 d dr by (simp add: nth_append nat_add_distrib min_def)
    qed
  qed
  then show "take (nat (n + 1)) (r[nat pos := k]) = insort k ?xs"
    by (simp add: insort_takeWhile [of k ?xs])
qed


lemma scan_from_iff:
  "0 \<le> i \<Longrightarrow> scan_from ks n key i = (\<exists>j. i \<le> j \<and> j < n \<and> ks ! nat j = key)"
proof (induction ks n key i rule: scan_from.induct)
  case (1 ks n key i)
  show ?case
  proof (cases "i < n")
    case False
    then show ?thesis by (subst scan_from.simps) auto
  next
    case True
    show ?thesis
    proof (cases "ks ! nat i = key")
      case hit: True
      then have "scan_from ks n key i" using True by (subst scan_from.simps) simp
      moreover have "\<exists>j. i \<le> j \<and> j < n \<and> ks ! nat j = key" using True hit by auto
      ultimately show ?thesis by simp
    next
      case miss: False
      have "scan_from ks n key i = scan_from ks n key (i + 1)"
        using True miss by (subst scan_from.simps) simp
      also have "\<dots> = (\<exists>j. i + 1 \<le> j \<and> j < n \<and> ks ! nat j = key)"
        using "1.IH" True miss "1.prems" by simp
      also have "\<dots> = (\<exists>j. i \<le> j \<and> j < n \<and> ks ! nat j = key)"
      proof
        assume "\<exists>j. i + 1 \<le> j \<and> j < n \<and> ks ! nat j = key"
        then obtain j where "i + 1 \<le> j" "j < n" "ks ! nat j = key" by blast
        then have "i \<le> j \<and> j < n \<and> ks ! nat j = key" by simp
        then show "\<exists>j. i \<le> j \<and> j < n \<and> ks ! nat j = key" by blast
      next
        assume "\<exists>j. i \<le> j \<and> j < n \<and> ks ! nat j = key"
        then obtain j where j: "i \<le> j" "j < n" "ks ! nat j = key" by blast
        with miss have "j \<noteq> i" by auto
        with j have "i + 1 \<le> j \<and> j < n \<and> ks ! nat j = key" by simp
        then show "\<exists>j. i + 1 \<le> j \<and> j < n \<and> ks ! nat j = key" by blast
      qed
      finally show ?thesis .
    qed
  qed
qed

lemma set_take_int:
  assumes "0 \<le> n" and "nat n \<le> length ks"
  shows "(key \<in> set (take (nat n) ks)) = (\<exists>j. 0 \<le> j \<and> j < n \<and> ks ! nat j = key)"
proof
  assume "key \<in> set (take (nat n) ks)"
  then obtain i where i: "i < length (take (nat n) ks)" "take (nat n) ks ! i = key"
    by (auto simp: in_set_conv_nth)
  then have "0 \<le> int i \<and> int i < n \<and> ks ! nat (int i) = key" using assms by simp
  then show "\<exists>j. 0 \<le> j \<and> j < n \<and> ks ! nat j = key" by blast
next
  assume "\<exists>j. 0 \<le> j \<and> j < n \<and> ks ! nat j = key"
  then obtain j where j: "0 \<le> j" "j < n" "ks ! nat j = key" by blast
  then have "nat j < length (take (nat n) ks)" "take (nat n) ks ! nat j = key"
    using assms by simp_all
  then show "key \<in> set (take (nat n) ks)" by (auto simp: in_set_conv_nth)
qed

lemma scan_contents:
  assumes "0 \<le> count L" and "nat (count L) \<le> length (keys L)"
  shows "scan_from (keys L) (count L) key 0 = (key \<in> set (contents L))"
  using scan_from_iff [of 0 "keys L" "count L" key] set_take_int [OF assms, of key]
  by (simp add: contents_def)

lemma vec_scan_iff: "vec_scan ks key = (key \<in> set ks)"
  by (induction ks) auto

lemma bsearch_iff:
  "0 \<le> lo \<Longrightarrow> hi < n \<Longrightarrow> nat n \<le> length ks \<Longrightarrow> sorted (take (nat n) ks) \<Longrightarrow>
   bsearch ks k lo hi = (\<exists>j. lo \<le> j \<and> j \<le> hi \<and> ks ! nat j = k)"
proof (induction ks k lo hi rule: bsearch.induct)
  case (1 ks k lo hi)
  show ?case
  proof (cases "lo \<le> hi")
    case False
    then show ?thesis by (subst bsearch.simps) auto
  next
    case True
    define mid where "mid = half (lo + hi)"
    have mid: "lo \<le> mid" "mid \<le> hi"
      using True "1.prems" by (simp_all add: mid_def half_def)
    have mono: "ks ! nat a \<le> ks ! nat b" if "0 \<le> a" "a \<le> b" "b < n" for a b
    proof -
      have "take (nat n) ks ! nat a \<le> take (nat n) ks ! nat b"
        using that "1.prems" by (intro sorted_nth_mono) simp_all
      then show ?thesis using that by simp
    qed
    show ?thesis
    proof (cases "ks ! nat mid = k")
      case hit: True
      then have "bsearch ks k lo hi" using True by (subst bsearch.simps) (simp add: mid_def)
      moreover have "\<exists>j. lo \<le> j \<and> j \<le> hi \<and> ks ! nat j = k" using mid hit by blast
      ultimately show ?thesis by simp
    next
      case miss: False
      show ?thesis
      proof (cases "ks ! nat mid < k")
        case below: True
        have "bsearch ks k lo hi = bsearch ks k (mid + 1) hi"
          using True miss below by (subst bsearch.simps) (simp add: mid_def)
        also have "\<dots> = (\<exists>j. mid + 1 \<le> j \<and> j \<le> hi \<and> ks ! nat j = k)"
          using "1.IH"(1) [OF True mid_def miss below] "1.prems" mid by simp
        also have "\<dots> = (\<exists>j. lo \<le> j \<and> j \<le> hi \<and> ks ! nat j = k)"
        proof
          assume "\<exists>j. mid + 1 \<le> j \<and> j \<le> hi \<and> ks ! nat j = k"
          then obtain j where "mid + 1 \<le> j" "j \<le> hi" "ks ! nat j = k" by blast
          then have "lo \<le> j \<and> j \<le> hi \<and> ks ! nat j = k" using mid by simp
          then show "\<exists>j. lo \<le> j \<and> j \<le> hi \<and> ks ! nat j = k" by blast
        next
          assume "\<exists>j. lo \<le> j \<and> j \<le> hi \<and> ks ! nat j = k"
          then obtain j where j: "lo \<le> j" "j \<le> hi" "ks ! nat j = k" by blast
          have "\<not> j \<le> mid"
          proof
            assume "j \<le> mid"
            then have "ks ! nat j \<le> ks ! nat mid"
              using mono [of j mid] j mid "1.prems" by simp
            with below j show False by simp
          qed
          then have "mid + 1 \<le> j \<and> j \<le> hi \<and> ks ! nat j = k" using j by simp
          then show "\<exists>j. mid + 1 \<le> j \<and> j \<le> hi \<and> ks ! nat j = k" by blast
        qed
        finally show ?thesis .
      next
        case above: False
        have "bsearch ks k lo hi = bsearch ks k lo (mid - 1)"
          using True miss above by (subst bsearch.simps) (simp add: mid_def)
        also have "\<dots> = (\<exists>j. lo \<le> j \<and> j \<le> mid - 1 \<and> ks ! nat j = k)"
          using "1.IH"(2) [OF True mid_def miss above] "1.prems" mid by simp
        also have "\<dots> = (\<exists>j. lo \<le> j \<and> j \<le> hi \<and> ks ! nat j = k)"
        proof
          assume "\<exists>j. lo \<le> j \<and> j \<le> mid - 1 \<and> ks ! nat j = k"
          then obtain j where "lo \<le> j" "j \<le> mid - 1" "ks ! nat j = k" by blast
          then have "lo \<le> j \<and> j \<le> hi \<and> ks ! nat j = k" using mid by simp
          then show "\<exists>j. lo \<le> j \<and> j \<le> hi \<and> ks ! nat j = k" by blast
        next
          assume "\<exists>j. lo \<le> j \<and> j \<le> hi \<and> ks ! nat j = k"
          then obtain j where j: "lo \<le> j" "j \<le> hi" "ks ! nat j = k" by blast
          have "\<not> mid \<le> j"
          proof
            assume "mid \<le> j"
            then have "ks ! nat mid \<le> ks ! nat j"
              using mono [of mid j] j mid "1.prems" by simp
            with above miss j show False by simp
          qed
          then have "lo \<le> j \<and> j \<le> mid - 1 \<and> ks ! nat j = k" using j by simp
          then show "\<exists>j. lo \<le> j \<and> j \<le> mid - 1 \<and> ks ! nat j = k" by blast
        qed
        finally show ?thesis .
      qed
    qed
  qed
qed

lemma bsearch_contents:
  assumes "0 \<le> count L" and "nat (count L) \<le> length (keys L)" and "sorted (contents L)"
  shows "bsearch (keys L) k 0 (count L - 1) = (k \<in> set (contents L))"
proof -
  have "bsearch (keys L) k 0 (count L - 1) =
      (\<exists>j. 0 \<le> j \<and> j \<le> count L - 1 \<and> keys L ! nat j = k)"
    using assms by (intro bsearch_iff [where n = "count L"]) (simp_all add: contents_def)
  also have "\<dots> = (\<exists>j. 0 \<le> j \<and> j < count L \<and> keys L ! nat j = k)"
    by (metis zle_diff1_eq)
  also have "\<dots> = (k \<in> set (contents L))"
    using set_take_int [OF assms(1,2), of k] by (simp add: contents_def)
  finally show ?thesis .
qed


lemma sorted_step:
  assumes ok: "leaf_ok cap L" and room: "count L < cap"
    and sh: "shift_right (find_pos (keys L) (count L) k 0) (count L) (keys L) s = (r, s1)"
    and L': "L' = \<lparr>keys = r[nat (find_pos (keys L) (count L) k 0) := k], count = count L + 1\<rparr>"
  shows "leaf_ok cap L' \<and> count L' = count L + 1 \<and> contents L' = insort k (contents L)"
proof -
  have n0: "0 \<le> count L" and nlt: "nat (count L) < length (keys L)"
    using ok room by (simp_all add: leaf_ok_def)
  note facts = shift_insert_contents [OF n0 nlt refl sh]
  have "leaf_ok cap L'"
    using ok room facts(2) by (simp add: leaf_ok_def L')
  moreover have "contents L' = insort k (contents L)"
    using facts(1) by (simp add: contents_def L')
  ultimately show ?thesis by (simp add: L')
qed


lemma insert_sorted_step:
  assumes "leaf_ok CAP128 L" and "count L < CAP128"
  shows "leaf_ok CAP128 (fst (insert_sorted k L s)) \<and>
         count (fst (insert_sorted k L s)) = count L + 1 \<and>
         contents (fst (insert_sorted k L s)) = insort k (contents L)"
proof -
  obtain r s1 where
    sh: "shift_right (find_pos (keys L) (count L) k 0) (count L) (keys L) s = (r, s1)"
    by (cases "shift_right (find_pos (keys L) (count L) k 0) (count L) (keys L) s")
  show ?thesis
    using sorted_step [OF assms sh refl] assms(2) sh by (simp add: insert_sorted_def)
qed

lemma LeafBTreeVolatile_insert_step:
  assumes "leaf_ok CAP L" and "count L < CAP"
  shows "leaf_ok CAP (fst (LeafBTreeVolatile_insert k L s)) \<and>
         count (fst (LeafBTreeVolatile_insert k L s)) = count L + 1 \<and>
         contents (fst (LeafBTreeVolatile_insert k L s)) = insort k (contents L)"
proof -
  obtain r s1 where
    sh: "shift_right (find_pos (keys L) (count L) k 0) (count L) (keys L) s = (r, s1)"
    by (cases "shift_right (find_pos (keys L) (count L) k 0) (count L) (keys L) s")
  show ?thesis
    using sorted_step [OF assms sh refl] assms(2) sh by (simp add: LeafBTreeVolatile_insert_def)
qed

lemma LeafBTreeLog_insert_step:
  assumes "leaf_ok CAP L" and "count L < CAP"
  shows "leaf_ok CAP (fst (LeafBTreeLog_insert k L s)) \<and>
         count (fst (LeafBTreeLog_insert k L s)) = count L + 1 \<and>
         contents (fst (LeafBTreeLog_insert k L s)) = insort k (contents L)"
proof -
  let ?s0 = "pcm_fence (pcm_flush (pcm_write s 4))"
  obtain r s1 where
    sh: "shift_right (find_pos (keys L) (count L) k 0) (count L) (keys L) ?s0 = (r, s1)"
    by (cases "shift_right (find_pos (keys L) (count L) k 0) (count L) (keys L) ?s0")
  show ?thesis
    using sorted_step [OF assms sh refl] assms(2) sh by (simp add: LeafBTreeLog_insert_def)
qed

lemma append_step:
  assumes "leaf_ok cap L" and "count L < cap"
    and "L' = \<lparr>keys = (keys L)[nat (count L) := k], count = count L + 1\<rparr>"
  shows "leaf_ok cap L' \<and> count L' = count L + 1 \<and> contents L' = contents L @ [k]"
  using assms
  by (simp add: leaf_ok_def contents_def nat_add_distrib take_Suc_conv_app_nth)

lemma insert_unsorted_step:
  assumes "leaf_ok CAP128 L" and "count L < CAP128"
  shows "leaf_ok CAP128 (fst (insert_unsorted k L s)) \<and>
         count (fst (insert_unsorted k L s)) = count L + 1 \<and>
         contents (fst (insert_unsorted k L s)) = contents L @ [k]"
  using append_step [OF assms refl] assms(2) by (simp add: insert_unsorted_def)

lemma LeafWBTree_insert_step:
  assumes "leaf_ok CAP L" and "count L < CAP"
  shows "leaf_ok CAP (fst (LeafWBTree_insert k L s)) \<and>
         count (fst (LeafWBTree_insert k L s)) = count L + 1 \<and>
         contents (fst (LeafWBTree_insert k L s)) = contents L @ [k]"
  using append_step [OF assms refl] assms(2) by (simp add: LeafWBTree_insert_def)

lemma insert_all_fold:
  assumes step: "\<And>k L s. leaf_ok cap L \<Longrightarrow> count L < cap \<Longrightarrow>
      leaf_ok cap (fst (ins k L s)) \<and> count (fst (ins k L s)) = count L + 1 \<and>
      contents (fst (ins k L s)) = f k (contents L)"
  shows "leaf_ok cap L \<Longrightarrow> count L + int (length ks) \<le> cap \<Longrightarrow>
     leaf_ok cap (fst (insert_all ins ks L s)) \<and>
     contents (fst (insert_all ins ks L s)) = fold f ks (contents L)"
proof (induction ks arbitrary: L s)
  case Nil
  then show ?case by simp
next
  case (Cons k ks)
  obtain L1 s1 where i: "ins k L s = (L1, s1)" by (cases "ins k L s")
  have "leaf_ok cap L1 \<and> count L1 = count L + 1 \<and> contents L1 = f k (contents L)"
    using step [of L k s] Cons.prems i by simp
  then show ?case
    using Cons.IH [of L1 s1] Cons.prems i by simp
qed

lemma insert_all_invariant:
  assumes step: "\<And>k L s. I L \<Longrightarrow> I (fst (ins k L s))"
  shows "I L \<Longrightarrow> I (fst (insert_all ins ks L s))"
proof (induction ks arbitrary: L s)
  case Nil
  then show ?case by simp
next
  case (Cons k ks)
  obtain L1 s1 where i: "ins k L s = (L1, s1)" by (cases "ins k L s")
  then have "I L1" using step [of L k s] Cons.prems by simp
  then show ?case using Cons.IH [of L1 s1] i by simp
qed

lemma set_fold_insort: "set (fold insort ks xs) = set ks \<union> set xs"
  by (induction ks arbitrary: xs) (auto simp: set_insort_key)

lemma sorted_fold_insort: "sorted xs \<Longrightarrow> sorted (fold insort ks xs)"
  by (induction ks arbitrary: xs) (auto simp: sorted_insort)

lemma fold_snoc: "fold (\<lambda>k xs. xs @ [k]) ks xs = xs @ ks"
  by (induction ks arbitrary: xs) auto

lemma lower_bound_insert_insort: "lower_bound_insert key ks = insort key ks"
  by (simp add: lower_bound_insert_def vec_insert_def lower_bound_def insort_takeWhile [of key ks])

lemma lower_bound_search_iff:
  "sorted ks \<Longrightarrow> lower_bound_search key ks = (key \<in> set ks)"
proof (induction ks)
  case Nil
  then show ?case by (simp add: lower_bound_search_def lower_bound_def)
next
  case (Cons y ys)
  show ?case
  proof (cases "y < key")
    case True
    then show ?thesis
      using Cons by (auto simp: lower_bound_search_def lower_bound_def Let_def)
  next
    case False
    have "key \<in> set ys \<Longrightarrow> y = key"
    proof -
      assume "key \<in> set ys"
      then have "y \<le> key" using Cons.prems by auto
      with False show "y = key" by simp
    qed
    then show ?thesis
      using False by (auto simp: lower_bound_search_def lower_bound_def Let_def)
  qed
qed

subsection \<open>The BzTree style insert\<close>


lemma count_word_roundtrip:
  "- 2147483648 \<le> n \<Longrightarrow> n < 2147483648 \<Longrightarrow> sint (ucast (word_of_int n :: 64 word) :: 32 word) = n"
proof -
  assume a: "- 2147483648 \<le> n" "n < 2147483648"
  have "sint (ucast (word_of_int n :: 64 word) :: 32 word) = signed_take_bit 31 (take_bit 32 (take_bit 64 n))"
    by (simp add: sint_uint unsigned_ucast_eq uint_word_of_int_eq)
  also have "\<dots> = signed_take_bit 31 n"
    by (simp add: signed_take_bit_take_bit)
  also have "\<dots> = n"
    using a by (simp add: signed_take_bit_int_eq_self)
  finally show ?thesis .
qed

lemma bztree_insert_eq:
  assumes "0 \<le> count leaf" and "count leaf < CAP"
  shows "bztree_insert key leaf s =
           (\<lparr>keys = (keys leaf)[nat (count leaf) := key], count = count leaf + 1\<rparr>,
            \<lparr>Nw = Nw s + 4, Nclf = Nclf s + 2, Nmf = Nmf s + 2\<rparr>)"
proof -
  have c: "sint (ucast (word_of_int (count leaf + 1) :: 64 word) :: 32 word) = count leaf + 1"
    using assms by (intro count_word_roundtrip) (simp_all add: CAP_def)
  show ?thesis
    using assms c
    by (simp add: bztree_insert_def pmwcas_def bztree_descriptor_def pcm_write_def pcm_flush_def
        pcm_fence_def)
qed

lemma bztree_insert_step:
  assumes "leaf_ok CAP L" and "count L < CAP"
  shows "leaf_ok CAP (fst (bztree_insert k L s)) \<and>
         count (fst (bztree_insert k L s)) = count L + 1 \<and>
         contents (fst (bztree_insert k L s)) = contents L @ [k]"
proof -
  have "0 \<le> count L" using assms by (simp add: leaf_ok_def)
  then show ?thesis
    using append_step [OF assms refl] bztree_insert_eq [OF _ assms(2), of k s] by simp
qed

text \<open>
  C10. A \<open>bztree_insert\<close> on a well-formed leaf with \<open>count\<close> strictly below the capacity
  builds a descriptor of exactly two entries; it stores the key in slot \<open>count\<close>, so the
  stored keys grow by the key at their end, adds exactly 1 to \<open>count\<close>, and adds exactly
  4 word writes, 2 flushes and 2 fences to the meter.
\<close>

theorem bztree_insert_commits:
  assumes "0 \<le> count leaf" and "count leaf < CAP" and "length (keys leaf) = nat CAP"
  shows "length (entries (bztree_descriptor leaf key)) = 2 \<and>
         bztree_insert key leaf s =
           (\<lparr>keys = (keys leaf)[nat (count leaf) := key], count = count leaf + 1\<rparr>,
            \<lparr>Nw = Nw s + 4, Nclf = Nclf s + 2, Nmf = Nmf s + 2\<rparr>) \<and>
         contents (fst (bztree_insert key leaf s)) = contents leaf @ [key]"
proof -
  have ok: "leaf_ok CAP leaf" using assms by (simp add: leaf_ok_def)
  show ?thesis
    using bztree_insert_eq [OF assms(1,2), of key s] bztree_insert_step [OF ok assms(2), of key s]
    by (simp add: bztree_descriptor_def)
qed

theorem bztree_insert_commits_witness:
  "0 \<le> count (new_leaf (replicate 32 0)) \<and> count (new_leaf (replicate 32 0)) < CAP \<and>
   length (keys (new_leaf (replicate 32 0))) = nat CAP \<and>
   bztree_insert 7 (new_leaf (replicate 32 0)) Stats0 =
     (\<lparr>keys = (replicate 32 0)[0 := 7], count = 1\<rparr>, \<lparr>Nw = 4, Nclf = 2, Nmf = 2\<rparr>) \<and>
   contents (fst (bztree_insert 7 (new_leaf (replicate 32 0)) Stats0)) =
     contents (new_leaf (replicate 32 0)) @ [7]"
proof -
  have h: "0 \<le> count (new_leaf (replicate 32 0))" "count (new_leaf (replicate 32 0)) < CAP"
    "length (keys (new_leaf (replicate 32 0))) = nat CAP"
    by (simp_all add: new_leaf_def CAP_def)
  show ?thesis
    using h bztree_insert_commits [OF h, of 7 Stats0]
    by (auto simp: new_leaf_def Stats0_def)
qed

subsection \<open>Sequences of inserts: order, round trip, capacity\<close>

lemma new_leaf_ok: "length arr = nat cap \<Longrightarrow> 0 \<le> cap \<Longrightarrow> leaf_ok cap (new_leaf arr)"
  by (simp add: leaf_ok_def new_leaf_def)

lemma contents_new_leaf: "contents (new_leaf arr) = []"
  by (simp add: contents_def new_leaf_def)

lemma insert_all_vec_sorted:
  assumes "\<And>k xs s. fst (ins k xs s) = lower_bound_insert k xs"
  shows "fst (insert_all ins ks xs s) = fold insort ks xs"
proof (induction ks arbitrary: xs s)
  case Nil
  then show ?case by simp
next
  case (Cons k ks)
  obtain xs1 s1 where i: "ins k xs s = (xs1, s1)" by (cases "ins k xs s")
  then have "xs1 = insort k xs"
    using assms [of k xs s] by (simp add: lower_bound_insert_insort)
  then show ?case using Cons.IH [of xs1 s1] i by simp
qed

lemma insert_all_UnsortedLeaf: "fst (insert_all UnsortedLeaf_insert ks xs s) = xs @ ks"
  by (induction ks arbitrary: xs s) (simp_all add: UnsortedLeaf_insert_def)

lemma sorted_inv_step:
  assumes step: "\<And>k L s. leaf_ok cap L \<Longrightarrow> count L < cap \<Longrightarrow>
      leaf_ok cap (fst (ins k L s)) \<and> count (fst (ins k L s)) = count L + 1 \<and>
      contents (fst (ins k L s)) = insort k (contents L)"
    and full: "\<And>k L s. cap \<le> count L \<Longrightarrow> ins k L s = (L, s)"
    and inv: "leaf_ok cap L \<and> sorted (contents L)"
  shows "leaf_ok cap (fst (ins k L s)) \<and> sorted (contents (fst (ins k L s)))"
proof (cases "count L < cap")
  case True
  then show ?thesis using step [of L k s] inv by (simp add: sorted_insort)
next
  case False
  then show ?thesis using full [of L k s] inv by simp
qed

lemma insert_sorted_full: "CAP128 \<le> count L \<Longrightarrow> insert_sorted k L s = (L, s)"
  by (simp add: insert_sorted_def)
lemma insert_unsorted_full: "CAP128 \<le> count L \<Longrightarrow> insert_unsorted k L s = (L, s)"
  by (simp add: insert_unsorted_def)
lemma LeafBTreeVolatile_insert_full: "CAP \<le> count L \<Longrightarrow> LeafBTreeVolatile_insert k L s = (L, s)"
  by (simp add: LeafBTreeVolatile_insert_def)
lemma LeafBTreeLog_insert_full: "CAP \<le> count L \<Longrightarrow> LeafBTreeLog_insert k L s = (L, s)"
  by (simp add: LeafBTreeLog_insert_def)
lemma LeafWBTree_insert_full: "CAP \<le> count L \<Longrightarrow> LeafWBTree_insert k L s = (L, s)"
  by (simp add: LeafWBTree_insert_def)
lemma bztree_insert_full: "CAP \<le> count L \<Longrightarrow> bztree_insert k L s = (L, s)"
  by (simp add: bztree_insert_def)

lemma sorted_array_invariant:
  assumes step: "\<And>k L s. leaf_ok cap L \<Longrightarrow> count L < cap \<Longrightarrow>
      leaf_ok cap (fst (ins k L s)) \<and> count (fst (ins k L s)) = count L + 1 \<and>
      contents (fst (ins k L s)) = insort k (contents L)"
    and full: "\<And>k L s. cap \<le> count L \<Longrightarrow> ins k L s = (L, s)"
    and len: "length arr = nat cap" and cap: "0 \<le> cap"
  shows "sorted (contents (fst (insert_all ins ks (new_leaf arr) s)))"
proof -
  let ?I = "\<lambda>L. leaf_ok cap L \<and> sorted (contents L)"
  have "?I (new_leaf arr)"
    using new_leaf_ok [OF len cap] by (simp add: contents_new_leaf)
  moreover have "\<And>k L s. ?I L \<Longrightarrow> ?I (fst (ins k L s))"
    using sorted_inv_step [OF step full] by blast
  ultimately have "?I (fst (insert_all ins ks (new_leaf arr) s))"
    by (rule insert_all_invariant [where I = ?I, rotated])
  then show ?thesis by simp
qed

text \<open>
  C3. After any sequence of insert calls on an empty leaf (whatever its array held, and
  whether or not some calls met a full leaf), the stored keys of the sorted-shift leaves
  (\<open>insert_sorted\<close>, \<open>LeafBTreeVolatile\<close>, and the vector-backed \<open>SortedLeaf\<close> and
  \<open>LeafBaseline\<close>) and of the logging sorted-shift leaves (\<open>LeafBTreeLog\<close>,
  \<open>LeafLogging\<close>) are in non-decreasing order.
\<close>

theorem sorted_invariant:
  "(length big = nat CAP128 \<longrightarrow>
      sorted (contents (fst (insert_all insert_sorted ks (new_leaf big) s)))) \<and>
   (length arr = nat CAP \<longrightarrow>
      sorted (contents (fst (insert_all LeafBTreeVolatile_insert ks (new_leaf arr) s))) \<and>
      sorted (contents (fst (insert_all LeafBTreeLog_insert ks (new_leaf arr) s)))) \<and>
   sorted (fst (insert_all SortedLeaf_insert ks [] s)) \<and>
   sorted (fst (insert_all LeafBaseline_insert ks [] s)) \<and>
   sorted (fst (insert_all LeafLogging_insert ks [] s))"
proof -
  have a: "sorted (contents (fst (insert_all insert_sorted ks (new_leaf big) s)))"
    if "length big = nat CAP128"
    using sorted_array_invariant [of CAP128 insert_sorted big ks s, OF insert_sorted_step
        insert_sorted_full that]
    by (simp add: CAP128_def)
  have b: "sorted (contents (fst (insert_all LeafBTreeVolatile_insert ks (new_leaf arr) s)))"
    if "length arr = nat CAP"
    using sorted_array_invariant [of CAP LeafBTreeVolatile_insert arr ks s,
        OF LeafBTreeVolatile_insert_step LeafBTreeVolatile_insert_full that]
    by (simp add: CAP_def)
  have c: "sorted (contents (fst (insert_all LeafBTreeLog_insert ks (new_leaf arr) s)))"
    if "length arr = nat CAP"
    using sorted_array_invariant [of CAP LeafBTreeLog_insert arr ks s,
        OF LeafBTreeLog_insert_step LeafBTreeLog_insert_full that]
    by (simp add: CAP_def)
  have d: "sorted (fst (insert_all SortedLeaf_insert ks [] s))"
    by (simp add: insert_all_vec_sorted [of SortedLeaf_insert] SortedLeaf_insert_def
        sorted_fold_insort)
  have e: "sorted (fst (insert_all LeafBaseline_insert ks [] s))"
    by (simp add: insert_all_vec_sorted [of LeafBaseline_insert] LeafBaseline_insert_def
        sorted_fold_insort)
  have f: "sorted (fst (insert_all LeafLogging_insert ks [] s))"
    by (simp add: insert_all_vec_sorted [of LeafLogging_insert] LeafLogging_insert_def
        sorted_fold_insort)
  show ?thesis using a b c d e f by blast
qed


theorem sorted_invariant_witness:
  "length (replicate 128 (0 :: u64)) = nat CAP128 \<and> length (replicate 32 (0 :: u64)) = nat CAP \<and>
   sorted (contents (fst (insert_all insert_sorted [5, 3, 4, 1, 2] (new_leaf (replicate 128 0)) Stats0))) \<and>
   sorted (contents (fst (insert_all LeafBTreeVolatile_insert [5, 3, 4, 1, 2] (new_leaf (replicate 32 0)) Stats0))) \<and>
   sorted (contents (fst (insert_all LeafBTreeLog_insert [5, 3, 4, 1, 2] (new_leaf (replicate 32 0)) Stats0))) \<and>
   sorted (fst (insert_all SortedLeaf_insert [5, 3, 4, 1, 2] [] Stats0))"
proof -
  have h: "length (replicate 128 (0 :: u64)) = nat CAP128" "length (replicate 32 (0 :: u64)) = nat CAP"
    by (simp_all add: CAP128_def CAP_def)
  show ?thesis
    using h sorted_invariant [of "replicate 128 0" "[5, 3, 4, 1, 2]" Stats0 "replicate 32 0"]
    by blast
qed

lemma array_roundtrip:
  assumes step: "\<And>k L s. leaf_ok cap L \<Longrightarrow> count L < cap \<Longrightarrow>
      leaf_ok cap (fst (ins k L s)) \<and> count (fst (ins k L s)) = count L + 1 \<and>
      contents (fst (ins k L s)) = f k (contents L)"
    and len: "length arr = nat cap" and cap: "0 \<le> cap" and fits: "int (length ks) \<le> cap"
  shows "leaf_ok cap (fst (insert_all ins ks (new_leaf arr) s)) \<and>
         contents (fst (insert_all ins ks (new_leaf arr) s)) = fold f ks []"
  using insert_all_fold [of cap ins f "new_leaf arr" ks s, OF step new_leaf_ok [OF len cap]] fits
  by (simp add: contents_new_leaf) (simp add: new_leaf_def)

lemma scan_roundtrip:
  assumes "leaf_ok cap L" and "contents L = xs"
  shows "scan_from (keys L) (count L) k 0 = (k \<in> set xs)"
  using scan_contents [of L k] assms by (auto simp: leaf_ok_def)

lemma bsearch_roundtrip:
  assumes "leaf_ok cap L" and "contents L = xs" and "sorted xs"
  shows "bsearch (keys L) k 0 (count L - 1) = (k \<in> set xs)"
  using bsearch_contents [of L k] assms by (auto simp: leaf_ok_def)

lemma set_fold_snoc: "set (fold (\<lambda>k xs. xs @ [k]) ks []) = set ks"
  by (simp add: fold_snoc)

text \<open>
  C4. For every leaf variant and every sequence of inserts on an empty leaf that fits the
  capacity (so that no insert is dropped), searching a key answers true exactly when the key
  is one of the inserted keys: every inserted key is found and no other key is, for the
  binary-search leaves and the linear-scan leaves alike.
\<close>

theorem search_roundtrip:
  "(length big = nat CAP128 \<and> int (length ks) \<le> CAP128 \<longrightarrow>
      search_leaf (fst (insert_all insert_sorted ks (new_leaf big) s)) k = (k \<in> set ks) \<and>
      search_leaf (fst (insert_all insert_unsorted ks (new_leaf big) s)) k = (k \<in> set ks)) \<and>
   (length arr = nat CAP \<and> int (length ks) \<le> CAP \<longrightarrow>
      fst (LeafBTreeVolatile_search k (fst (insert_all LeafBTreeVolatile_insert ks (new_leaf arr) s)) s') = (k \<in> set ks) \<and>
      fst (LeafBTreeLog_search k (fst (insert_all LeafBTreeLog_insert ks (new_leaf arr) s)) s') = (k \<in> set ks) \<and>
      fst (LeafWBTree_search k (fst (insert_all LeafWBTree_insert ks (new_leaf arr) s)) s') = (k \<in> set ks) \<and>
      search_leaf (fst (insert_all bztree_insert ks (new_leaf arr) s)) k = (k \<in> set ks)) \<and>
   fst (UnsortedLeaf_search k (fst (insert_all UnsortedLeaf_insert ks [] s)) s') = (k \<in> set ks) \<and>
   fst (SortedLeaf_search k (fst (insert_all SortedLeaf_insert ks [] s)) s') = (k \<in> set ks) \<and>
   fst (LeafBaseline_search k (fst (insert_all LeafBaseline_insert ks [] s)) s') = (k \<in> set ks) \<and>
   fst (LeafLogging_search k (fst (insert_all LeafLogging_insert ks [] s)) s') = (k \<in> set ks) \<and>
   fst (LeafWBTreeVec_search k (fst (insert_all LeafWBTreeVec_insert ks [] s)) s') = (k \<in> set ks) \<and>
   fst (BzLeaf_search k (fst (insert_all BzLeaf_insert ks [] s)) s') = (k \<in> set ks) \<and>
   fst (SimpleLeaf_search k (fst (insert_all SimpleLeaf_insert ks [] s)) s') = (k \<in> set ks)"
proof -
  have srt: "sorted (fold insort ks ([] :: u64 list))" by (simp add: sorted_fold_insort)
  have st: "set (fold insort ks ([] :: u64 list)) = set ks" by (simp add: set_fold_insort)
  have a1: "search_leaf (fst (insert_all insert_sorted ks (new_leaf big) s)) k = (k \<in> set ks)"
    if "length big = nat CAP128" "int (length ks) \<le> CAP128"
  proof -
    have "0 \<le> CAP128" by (simp add: CAP128_def)
    note r = array_roundtrip [of CAP128 insert_sorted insort big ks s, OF insert_sorted_step that(1) this that(2)]
    show ?thesis using scan_roundtrip [of CAP128 _ _ k] r st by (simp add: search_leaf_def)
  qed
  have a2: "search_leaf (fst (insert_all insert_unsorted ks (new_leaf big) s)) k = (k \<in> set ks)"
    if "length big = nat CAP128" "int (length ks) \<le> CAP128"
  proof -
    have "0 \<le> CAP128" by (simp add: CAP128_def)
    note r = array_roundtrip [of CAP128 insert_unsorted "\<lambda>k xs. xs @ [k]" big ks s,
        OF insert_unsorted_step that(1) this that(2)]
    show ?thesis using scan_roundtrip [of CAP128 _ _ k] r by (simp add: search_leaf_def fold_snoc)
  qed
  have cap0: "0 \<le> CAP" by (simp add: CAP_def)
  have b1: "fst (LeafBTreeVolatile_search k (fst (insert_all LeafBTreeVolatile_insert ks (new_leaf arr) s)) s') = (k \<in> set ks)"
    if "length arr = nat CAP" "int (length ks) \<le> CAP"
  proof -
    note r = array_roundtrip [of CAP LeafBTreeVolatile_insert insort arr ks s,
        OF LeafBTreeVolatile_insert_step that(1) cap0 that(2)]
    show ?thesis
      using bsearch_roundtrip [of CAP _ _ k] r st srt by (simp add: LeafBTreeVolatile_search_def)
  qed
  have b2: "fst (LeafBTreeLog_search k (fst (insert_all LeafBTreeLog_insert ks (new_leaf arr) s)) s') = (k \<in> set ks)"
    if "length arr = nat CAP" "int (length ks) \<le> CAP"
  proof -
    note r = array_roundtrip [of CAP LeafBTreeLog_insert insort arr ks s,
        OF LeafBTreeLog_insert_step that(1) cap0 that(2)]
    show ?thesis
      using bsearch_roundtrip [of CAP _ _ k] r st srt by (simp add: LeafBTreeLog_search_def)
  qed
  have b3: "fst (LeafWBTree_search k (fst (insert_all LeafWBTree_insert ks (new_leaf arr) s)) s') = (k \<in> set ks)"
    if "length arr = nat CAP" "int (length ks) \<le> CAP"
  proof -
    note r = array_roundtrip [of CAP LeafWBTree_insert "\<lambda>k xs. xs @ [k]" arr ks s,
        OF LeafWBTree_insert_step that(1) cap0 that(2)]
    show ?thesis
      using scan_roundtrip [of CAP _ _ k] r by (simp add: LeafWBTree_search_def fold_snoc)
  qed
  have b4: "search_leaf (fst (insert_all bztree_insert ks (new_leaf arr) s)) k = (k \<in> set ks)"
    if "length arr = nat CAP" "int (length ks) \<le> CAP"
  proof -
    note r = array_roundtrip [of CAP bztree_insert "\<lambda>k xs. xs @ [k]" arr ks s,
        OF bztree_insert_step that(1) cap0 that(2)]
    show ?thesis
      using scan_roundtrip [of CAP _ _ k] r by (simp add: search_leaf_def fold_snoc)
  qed
  have c0: "fst (UnsortedLeaf_search k (fst (insert_all UnsortedLeaf_insert ks [] s)) s') = (k \<in> set ks)"
    by (simp add: UnsortedLeaf_search_def insert_all_UnsortedLeaf vec_scan_iff)
  have v: "lower_bound_search k (fst (insert_all ins ks [] s)) = (k \<in> set ks)"
    if "\<And>k xs s. fst (ins k xs s) = lower_bound_insert k xs" for ins
    using insert_all_vec_sorted [of ins ks "[]" s, OF that] srt st
    by (simp add: lower_bound_search_iff)
  have c1: "fst (SortedLeaf_search k (fst (insert_all SortedLeaf_insert ks [] s)) s') = (k \<in> set ks)"
    using v [of SortedLeaf_insert] by (simp add: SortedLeaf_search_def SortedLeaf_insert_def)
  have c2: "fst (LeafBaseline_search k (fst (insert_all LeafBaseline_insert ks [] s)) s') = (k \<in> set ks)"
    using v [of LeafBaseline_insert] by (simp add: LeafBaseline_search_def LeafBaseline_insert_def)
  have c3: "fst (LeafLogging_search k (fst (insert_all LeafLogging_insert ks [] s)) s') = (k \<in> set ks)"
    using v [of LeafLogging_insert] by (simp add: LeafLogging_search_def LeafLogging_insert_def)
  have c4: "fst (LeafWBTreeVec_search k (fst (insert_all LeafWBTreeVec_insert ks [] s)) s') = (k \<in> set ks)"
    using v [of LeafWBTreeVec_insert] by (simp add: LeafWBTreeVec_search_def LeafWBTreeVec_insert_def)
  have c5: "fst (BzLeaf_search k (fst (insert_all BzLeaf_insert ks [] s)) s') = (k \<in> set ks)"
    using v [of BzLeaf_insert] by (simp add: BzLeaf_search_def BzLeaf_insert_def)
  have c6: "fst (SimpleLeaf_search k (fst (insert_all SimpleLeaf_insert ks [] s)) s') = (k \<in> set ks)"
    using v [of SimpleLeaf_insert] by (simp add: SimpleLeaf_search_def SimpleLeaf_insert_def)
  show ?thesis
    using a1 a2 b1 b2 b3 b4 c0 c1 c2 c3 c4 c5 c6 by blast
qed


theorem search_roundtrip_witness:
  "length (replicate 128 (0 :: u64)) = nat CAP128 \<and> int (length [5, 3, 4, 1, 2 :: u64]) \<le> CAP128 \<and>
   length (replicate 32 (0 :: u64)) = nat CAP \<and> int (length [5, 3, 4, 1, 2 :: u64]) \<le> CAP \<and>
   search_leaf (fst (insert_all insert_sorted [5, 3, 4, 1, 2] (new_leaf (replicate 128 0)) Stats0)) 4 \<and>
   search_leaf (fst (insert_all insert_unsorted [5, 3, 4, 1, 2] (new_leaf (replicate 128 0)) Stats0)) 4 \<and>
   fst (LeafBTreeVolatile_search 4
     (fst (insert_all LeafBTreeVolatile_insert [5, 3, 4, 1, 2] (new_leaf (replicate 32 0)) Stats0)) Stats0) \<and>
   fst (LeafBTreeLog_search 4
     (fst (insert_all LeafBTreeLog_insert [5, 3, 4, 1, 2] (new_leaf (replicate 32 0)) Stats0)) Stats0) \<and>
   fst (LeafWBTree_search 4
     (fst (insert_all LeafWBTree_insert [5, 3, 4, 1, 2] (new_leaf (replicate 32 0)) Stats0)) Stats0) \<and>
   search_leaf (fst (insert_all bztree_insert [5, 3, 4, 1, 2] (new_leaf (replicate 32 0)) Stats0)) 4 \<and>
   fst (UnsortedLeaf_search 4 (fst (insert_all UnsortedLeaf_insert [5, 3, 4, 1, 2] [] Stats0)) Stats0) \<and>
   fst (SortedLeaf_search 4 (fst (insert_all SortedLeaf_insert [5, 3, 4, 1, 2] [] Stats0)) Stats0) \<and>
   \<not> search_leaf (fst (insert_all insert_sorted [5, 3, 4, 1, 2] (new_leaf (replicate 128 0)) Stats0)) 0 \<and>
   \<not> fst (LeafBTreeVolatile_search 0
     (fst (insert_all LeafBTreeVolatile_insert [5, 3, 4, 1, 2] (new_leaf (replicate 32 0)) Stats0)) Stats0) \<and>
   \<not> fst (SortedLeaf_search 7 (fst (insert_all SortedLeaf_insert [5, 3, 4, 1, 2] [] Stats0)) Stats0)"
proof -
  have h: "length (replicate 128 (0 :: u64)) = nat CAP128" "int (length [5, 3, 4, 1, 2 :: u64]) \<le> CAP128"
    "length (replicate 32 (0 :: u64)) = nat CAP" "int (length [5, 3, 4, 1, 2 :: u64]) \<le> CAP"
    by (simp_all add: CAP128_def CAP_def)
  have m: "(4 :: u64) \<in> set [5, 3, 4, 1, 2]" "(0 :: u64) \<notin> set [5, 3, 4, 1, 2]"
    "(7 :: u64) \<notin> set [5, 3, 4, 1, 2]"
    by simp_all
  show ?thesis
    using h m
      search_roundtrip [of "replicate 128 0" "[5, 3, 4, 1, 2]" Stats0 4 "replicate 32 0" Stats0]
      search_roundtrip [of "replicate 128 0" "[5, 3, 4, 1, 2]" Stats0 0 "replicate 32 0" Stats0]
      search_roundtrip [of "replicate 128 0" "[5, 3, 4, 1, 2]" Stats0 7 "replicate 32 0" Stats0]
    by blast
qed

text \<open>
  C2, as the code has it. For the six array-backed variants an insert on a leaf whose count
  has reached the capacity (128 in article1, 32 in article2 and article3) returns the leaf and
  the meter unchanged, and nothing is signalled. The seven vector-backed variants of the
  extension simulators have no capacity: every insert stores the key, so the leaf grows by
  one, and charges the variant's fixed cost.
\<close>

theorem capacity_policy:
  "(CAP128 \<le> count L \<longrightarrow> insert_sorted k L s = (L, s) \<and> insert_unsorted k L s = (L, s)) \<and>
   (CAP \<le> count L \<longrightarrow>
      LeafBTreeVolatile_insert k L s = (L, s) \<and> LeafBTreeLog_insert k L s = (L, s) \<and>
      LeafWBTree_insert k L s = (L, s) \<and> bztree_insert k L s = (L, s)) \<and>
   UnsortedLeaf_insert k xs s = (xs @ [k], charge 1 1 1 s) \<and>
   length (fst (SortedLeaf_insert k xs s)) = length xs + 1 \<and>
   snd (SortedLeaf_insert k xs s) = charge 4 2 1 s \<and>
   length (fst (LeafBaseline_insert k xs s)) = length xs + 1 \<and>
   snd (LeafBaseline_insert k xs s) = charge 4 2 1 s \<and>
   length (fst (LeafLogging_insert k xs s)) = length xs + 1 \<and>
   snd (LeafLogging_insert k xs s) = charge 8 4 2 s \<and>
   length (fst (LeafWBTreeVec_insert k xs s)) = length xs + 1 \<and>
   snd (LeafWBTreeVec_insert k xs s) = charge 2 1 1 s \<and>
   length (fst (BzLeaf_insert k xs s)) = length xs + 1 \<and>
   snd (BzLeaf_insert k xs s) = charge 3 3 2 s \<and>
   length (fst (SimpleLeaf_insert k xs s)) = length xs + 1 \<and>
   snd (SimpleLeaf_insert k xs s) = charge 4 2 1 s"
proof -
  have l: "length (lower_bound_insert k xs) = length xs + 1"
    by (simp add: lower_bound_insert_insort)
  show ?thesis
    using l
    by (simp add: insert_sorted_full insert_unsorted_full LeafBTreeVolatile_insert_full
        LeafBTreeLog_insert_full LeafWBTree_insert_full bztree_insert_full
        UnsortedLeaf_insert_def SortedLeaf_insert_def LeafBaseline_insert_def
        LeafLogging_insert_def LeafWBTreeVec_insert_def BzLeaf_insert_def SimpleLeaf_insert_def)
qed

theorem capacity_policy_witness:
  "CAP128 \<le> count \<lparr>keys = replicate 128 0, count = 128\<rparr> \<and>
   CAP \<le> count \<lparr>keys = replicate 128 0, count = 128\<rparr> \<and>
   insert_sorted 7 \<lparr>keys = replicate 128 0, count = 128\<rparr> Stats0 =
     (\<lparr>keys = replicate 128 0, count = 128\<rparr>, Stats0) \<and>
   insert_unsorted 7 \<lparr>keys = replicate 128 0, count = 128\<rparr> Stats0 =
     (\<lparr>keys = replicate 128 0, count = 128\<rparr>, Stats0) \<and>
   LeafBTreeVolatile_insert 7 \<lparr>keys = replicate 128 0, count = 128\<rparr> Stats0 =
     (\<lparr>keys = replicate 128 0, count = 128\<rparr>, Stats0) \<and>
   bztree_insert 7 \<lparr>keys = replicate 128 0, count = 128\<rparr> Stats0 =
     (\<lparr>keys = replicate 128 0, count = 128\<rparr>, Stats0)"
proof -
  have h: "CAP128 \<le> count \<lparr>keys = replicate 128 0, count = 128\<rparr>"
    "CAP \<le> count \<lparr>keys = replicate 128 0, count = 128\<rparr>"
    by (simp_all add: CAP128_def CAP_def)
  show ?thesis
    using h capacity_policy [of "\<lparr>keys = replicate 128 0, count = 128\<rparr>" 7 Stats0 "[]"]
    by blast
qed

text \<open>
  The claim as stated fails on a vector-backed leaf: with 128 keys stored, at or beyond
  either capacity, \<open>SortedLeaf::insert\<close> still stores the key and charges the meter.
\<close>

theorem capacity_policy_counterexample:
  "SortedLeaf_insert 7 (replicate 128 0) Stats0 \<noteq> (replicate 128 0, Stats0) \<and>
   length (fst (SortedLeaf_insert 7 (replicate 128 0) Stats0)) = 129 \<and>
   snd (SortedLeaf_insert 7 (replicate 128 0) Stats0) = \<lparr>Nw = 4, Nclf = 2, Nmf = 1\<rparr>"
  by (simp add: SortedLeaf_insert_def lower_bound_insert_insort charge_def Stats0_def)


lemma sorted_step_cost:
  assumes ok: "leaf_ok cap L" and room: "count L < cap"
    and sh: "shift_right (find_pos (keys L) (count L) k 0) (count L) (keys L) s = (r, s1)"
  shows "s1 = s\<lparr>Nw := Nw s + of_nat (length (dropWhile (\<lambda>x. x < k) (contents L)))\<rparr>"
proof -
  have n0: "0 \<le> count L" and nlt: "nat (count L) < length (keys L)"
    using ok room by (simp_all add: leaf_ok_def)
  let ?xs = "contents L"
  have len: "length ?xs = nat (count L)" using nlt by (simp add: contents_def)
  have pos: "find_pos (keys L) (count L) k 0 = int (length (takeWhile (\<lambda>x. x < k) ?xs))"
    using find_pos_0 [of "count L" "keys L" k] n0 nlt by (simp add: contents_def)
  have "length (takeWhile (\<lambda>x. x < k) ?xs) + length (dropWhile (\<lambda>x. x < k) ?xs) = length ?xs"
    by (metis length_append takeWhile_dropWhile_id)
  then have "nat (count L - find_pos (keys L) (count L) k 0) =
      length (dropWhile (\<lambda>x. x < k) ?xs)"
    using pos len n0 by linarith
  then show ?thesis
    using shift_insert_contents(3) [OF n0 nlt refl sh] by simp
qed

lemma LeafBTreeVolatile_insert_cost:
  assumes "leaf_ok CAP L" and "count L < CAP"
  shows "snd (LeafBTreeVolatile_insert k L s) =
     s\<lparr>Nw := Nw s + of_nat (length (dropWhile (\<lambda>x. x < k) (contents L))) + 1\<rparr>"
proof -
  obtain r s1 where
    sh: "shift_right (find_pos (keys L) (count L) k 0) (count L) (keys L) s = (r, s1)"
    by (cases "shift_right (find_pos (keys L) (count L) k 0) (count L) (keys L) s")
  show ?thesis
    using sorted_step_cost [OF assms sh] assms(2) sh
    by (simp add: LeafBTreeVolatile_insert_def pcm_write_def)
qed

lemma insert_sorted_cost:
  assumes "leaf_ok CAP128 L" and "count L < CAP128"
  shows "snd (insert_sorted k L s) =
     s\<lparr>Nw := Nw s + of_nat (length (dropWhile (\<lambda>x. x < k) (contents L))) + 1,
       Nclf := Nclf s + 1, Nmf := Nmf s + 1\<rparr>"
proof -
  obtain r s1 where
    sh: "shift_right (find_pos (keys L) (count L) k 0) (count L) (keys L) s = (r, s1)"
    by (cases "shift_right (find_pos (keys L) (count L) k 0) (count L) (keys L) s")
  show ?thesis
    using sorted_step_cost [OF assms sh] assms(2) sh
    by (simp add: insert_sorted_def pcm_write_def pcm_flush_def pcm_fence_def)
qed

lemma insert_all_Cons:
  "insert_all ins (k # ks) L s = insert_all ins ks (fst (ins k L s)) (snd (ins k L s))"
  by (simp add: case_prod_beta)

lemma LeafBTreeVolatile_chain:
  assumes "leaf_ok CAP L" and "count L = n" and "n < CAP" and "contents L = xs"
    and "s = \<lparr>Nw = w, Nclf = f, Nmf = m\<rparr>"
  shows "leaf_ok CAP (fst (LeafBTreeVolatile_insert k L s)) \<and>
     count (fst (LeafBTreeVolatile_insert k L s)) = n + 1 \<and>
     contents (fst (LeafBTreeVolatile_insert k L s)) = insort k xs \<and>
     snd (LeafBTreeVolatile_insert k L s) =
       \<lparr>Nw = w + of_nat (length (dropWhile (\<lambda>x. x < k) xs)) + 1, Nclf = f, Nmf = m\<rparr>"
  using LeafBTreeVolatile_insert_step [of L k s] LeafBTreeVolatile_insert_cost [of L k s] assms
  by simp

lemma insert_sorted_chain:
  assumes "leaf_ok CAP128 L" and "count L = n" and "n < CAP128" and "contents L = xs"
    and "s = \<lparr>Nw = w, Nclf = f, Nmf = m\<rparr>"
  shows "leaf_ok CAP128 (fst (insert_sorted k L s)) \<and>
     count (fst (insert_sorted k L s)) = n + 1 \<and>
     contents (fst (insert_sorted k L s)) = insort k xs \<and>
     snd (insert_sorted k L s) =
       \<lparr>Nw = w + of_nat (length (dropWhile (\<lambda>x. x < k) xs)) + 1, Nclf = f + 1, Nmf = m + 1\<rparr>"
  using insert_sorted_step [of L k s] insert_sorted_cost [of L k s] assms
  by simp

lemma scenario_C_volatile:
  assumes len: "length arr = nat CAP"
  shows "contents (fst (insert_all LeafBTreeVolatile_insert [5, 3, 4, 1, 2] (new_leaf arr) Stats0)) =
           [1, 2, 3, 4, 5] \<and>
         count (fst (insert_all LeafBTreeVolatile_insert [5, 3, 4, 1, 2] (new_leaf arr) Stats0)) = 5 \<and>
         snd (insert_all LeafBTreeVolatile_insert [5, 3, 4, 1, 2] (new_leaf arr) Stats0) =
           \<lparr>Nw = 13, Nclf = 0, Nmf = 0\<rparr>"
proof -
  let ?ins = LeafBTreeVolatile_insert
  define L0 where "L0 = new_leaf arr"
  define L1 where "L1 = fst (?ins 5 L0 Stats0)"
  define s1 where "s1 = snd (?ins 5 L0 Stats0)"
  define L2 where "L2 = fst (?ins 3 L1 s1)"
  define s2 where "s2 = snd (?ins 3 L1 s1)"
  define L3 where "L3 = fst (?ins 4 L2 s2)"
  define s3 where "s3 = snd (?ins 4 L2 s2)"
  define L4 where "L4 = fst (?ins 1 L3 s3)"
  define s4 where "s4 = snd (?ins 1 L3 s3)"
  define L5 where "L5 = fst (?ins 2 L4 s4)"
  define s5 where "s5 = snd (?ins 2 L4 s4)"
  have c: "(0 :: int) < CAP" "(1 :: int) < CAP" "(2 :: int) < CAP" "(3 :: int) < CAP" "(4 :: int) < CAP"
    by (simp_all add: CAP_def)
  have f0: "leaf_ok CAP L0" "count L0 = 0" "contents L0 = []"
    using len by (simp_all add: L0_def leaf_ok_def new_leaf_def contents_def CAP_def)
  have f1: "leaf_ok CAP L1 \<and> count L1 = 1 \<and> contents L1 = [5] \<and> s1 = \<lparr>Nw = 1, Nclf = 0, Nmf = 0\<rparr>"
    using LeafBTreeVolatile_chain [OF f0(1,2) c(1) f0(3), of Stats0 0 0 0 5]
    by (simp add: L1_def s1_def Stats0_def)
  have f2: "leaf_ok CAP L2 \<and> count L2 = 2 \<and> contents L2 = [3, 5] \<and> s2 = \<lparr>Nw = 3, Nclf = 0, Nmf = 0\<rparr>"
    using LeafBTreeVolatile_chain [of L1 1 "[5]" s1 1 0 0 3] f1 c
    by (simp add: L2_def s2_def)
  have f3: "leaf_ok CAP L3 \<and> count L3 = 3 \<and> contents L3 = [3, 4, 5] \<and> s3 = \<lparr>Nw = 5, Nclf = 0, Nmf = 0\<rparr>"
    using LeafBTreeVolatile_chain [of L2 2 "[3, 5]" s2 3 0 0 4] f2 c
    by (simp add: L3_def s3_def)
  have f4: "leaf_ok CAP L4 \<and> count L4 = 4 \<and> contents L4 = [1, 3, 4, 5] \<and> s4 = \<lparr>Nw = 9, Nclf = 0, Nmf = 0\<rparr>"
    using LeafBTreeVolatile_chain [of L3 3 "[3, 4, 5]" s3 5 0 0 1] f3 c
    by (simp add: L4_def s4_def)
  have f5: "leaf_ok CAP L5 \<and> count L5 = 5 \<and> contents L5 = [1, 2, 3, 4, 5] \<and> s5 = \<lparr>Nw = 13, Nclf = 0, Nmf = 0\<rparr>"
    using LeafBTreeVolatile_chain [of L4 4 "[1, 3, 4, 5]" s4 9 0 0 2] f4 c
    by (simp add: L5_def s5_def word_le_nat_alt)
  have "insert_all ?ins [5, 3, 4, 1, 2] (new_leaf arr) Stats0 = (L5, s5)"
    by (simp add: insert_all_Cons L0_def L1_def s1_def L2_def s2_def L3_def s3_def L4_def s4_def
        L5_def s5_def del: insert_all.simps(2))
  then show ?thesis using f5 by simp
qed

lemma scenario_C_insert_sorted:
  assumes len: "length arr = nat CAP128"
  shows "contents (fst (insert_all insert_sorted [5, 3, 4, 1, 2] (new_leaf arr) Stats0)) =
           [1, 2, 3, 4, 5] \<and>
         count (fst (insert_all insert_sorted [5, 3, 4, 1, 2] (new_leaf arr) Stats0)) = 5 \<and>
         snd (insert_all insert_sorted [5, 3, 4, 1, 2] (new_leaf arr) Stats0) =
           \<lparr>Nw = 13, Nclf = 5, Nmf = 5\<rparr>"
proof -
  let ?ins = insert_sorted
  define L0 where "L0 = new_leaf arr"
  define L1 where "L1 = fst (?ins 5 L0 Stats0)"
  define s1 where "s1 = snd (?ins 5 L0 Stats0)"
  define L2 where "L2 = fst (?ins 3 L1 s1)"
  define s2 where "s2 = snd (?ins 3 L1 s1)"
  define L3 where "L3 = fst (?ins 4 L2 s2)"
  define s3 where "s3 = snd (?ins 4 L2 s2)"
  define L4 where "L4 = fst (?ins 1 L3 s3)"
  define s4 where "s4 = snd (?ins 1 L3 s3)"
  define L5 where "L5 = fst (?ins 2 L4 s4)"
  define s5 where "s5 = snd (?ins 2 L4 s4)"
  have c: "(0 :: int) < CAP128" "(1 :: int) < CAP128" "(2 :: int) < CAP128" "(3 :: int) < CAP128" "(4 :: int) < CAP128"
    by (simp_all add: CAP128_def)
  have f0: "leaf_ok CAP128 L0" "count L0 = 0" "contents L0 = []"
    using len by (simp_all add: L0_def leaf_ok_def new_leaf_def contents_def CAP128_def)
  have f1: "leaf_ok CAP128 L1 \<and> count L1 = 1 \<and> contents L1 = [5] \<and> s1 = \<lparr>Nw = 1, Nclf = 1, Nmf = 1\<rparr>"
    using insert_sorted_chain [OF f0(1,2) c(1) f0(3), of Stats0 0 0 0 5]
    by (simp add: L1_def s1_def Stats0_def)
  have f2: "leaf_ok CAP128 L2 \<and> count L2 = 2 \<and> contents L2 = [3, 5] \<and> s2 = \<lparr>Nw = 3, Nclf = 2, Nmf = 2\<rparr>"
    using insert_sorted_chain [of L1 1 "[5]" s1 1 1 1 3] f1 c
    by (simp add: L2_def s2_def)
  have f3: "leaf_ok CAP128 L3 \<and> count L3 = 3 \<and> contents L3 = [3, 4, 5] \<and> s3 = \<lparr>Nw = 5, Nclf = 3, Nmf = 3\<rparr>"
    using insert_sorted_chain [of L2 2 "[3, 5]" s2 3 2 2 4] f2 c
    by (simp add: L3_def s3_def)
  have f4: "leaf_ok CAP128 L4 \<and> count L4 = 4 \<and> contents L4 = [1, 3, 4, 5] \<and> s4 = \<lparr>Nw = 9, Nclf = 4, Nmf = 4\<rparr>"
    using insert_sorted_chain [of L3 3 "[3, 4, 5]" s3 5 3 3 1] f3 c
    by (simp add: L4_def s4_def)
  have f5: "leaf_ok CAP128 L5 \<and> count L5 = 5 \<and> contents L5 = [1, 2, 3, 4, 5] \<and> s5 = \<lparr>Nw = 13, Nclf = 5, Nmf = 5\<rparr>"
    using insert_sorted_chain [of L4 4 "[1, 3, 4, 5]" s4 9 4 4 2] f4 c
    by (simp add: L5_def s5_def word_le_nat_alt)
  have "insert_all ?ins [5, 3, 4, 1, 2] (new_leaf arr) Stats0 = (L5, s5)"
    by (simp add: insert_all_Cons L0_def L1_def s1_def L2_def s2_def L3_def s3_def L4_def s4_def
        L5_def s5_def del: insert_all.simps(2))
  then show ?thesis using f5 by simp
qed


text \<open>
  C6, as the code has it. Inserting 5, 3, 4, 1, 2 in that order into an empty sorted-shift
  leaf with a zero meter leaves the keys 1, 2, 3, 4, 5 and records 13 word writes: the shifts
  are 0 + 1 + 1 + 3 + 3 = 8, and there are 5 new-key writes (\<open>insert_sorted\<close> also records
  5 flushes and 5 fences).
\<close>

theorem scenario_C:
  "(length arr = nat CAP \<longrightarrow>
      contents (fst (insert_all LeafBTreeVolatile_insert [5, 3, 4, 1, 2] (new_leaf arr) Stats0)) =
        [1, 2, 3, 4, 5] \<and>
      snd (insert_all LeafBTreeVolatile_insert [5, 3, 4, 1, 2] (new_leaf arr) Stats0) =
        \<lparr>Nw = 8 + 5, Nclf = 0, Nmf = 0\<rparr>) \<and>
   (length big = nat CAP128 \<longrightarrow>
      contents (fst (insert_all insert_sorted [5, 3, 4, 1, 2] (new_leaf big) Stats0)) =
        [1, 2, 3, 4, 5] \<and>
      snd (insert_all insert_sorted [5, 3, 4, 1, 2] (new_leaf big) Stats0) =
        \<lparr>Nw = 8 + 5, Nclf = 5, Nmf = 5\<rparr>)"
  using scenario_C_volatile [of arr] scenario_C_insert_sorted [of big] by simp

theorem scenario_C_witness:
  "length (replicate 32 (0 :: u64)) = nat CAP \<and> length (replicate 128 (0 :: u64)) = nat CAP128 \<and>
   contents (fst (insert_all LeafBTreeVolatile_insert [5, 3, 4, 1, 2] (new_leaf (replicate 32 0)) Stats0)) =
     [1, 2, 3, 4, 5] \<and>
   Nw (snd (insert_all LeafBTreeVolatile_insert [5, 3, 4, 1, 2] (new_leaf (replicate 32 0)) Stats0)) = 13 \<and>
   contents (fst (insert_all insert_sorted [5, 3, 4, 1, 2] (new_leaf (replicate 128 0)) Stats0)) =
     [1, 2, 3, 4, 5] \<and>
   Nw (snd (insert_all insert_sorted [5, 3, 4, 1, 2] (new_leaf (replicate 128 0)) Stats0)) = 13"
proof -
  have h: "length (replicate 32 (0 :: u64)) = nat CAP" "length (replicate 128 (0 :: u64)) = nat CAP128"
    by (simp_all add: CAP_def CAP128_def)
  show ?thesis
    using h scenario_C [of "replicate 32 0" "replicate 128 0"]
    by (simp del: insert_all.simps)
qed

text \<open>The word writes of the scenario are not 12, in any of the sorted leaves.\<close>

theorem scenario_C_counterexample:
  "Nw (snd (insert_all LeafBTreeVolatile_insert [5, 3, 4, 1, 2] (new_leaf (replicate 32 0)) Stats0)) \<noteq> 12 \<and>
   Nw (snd (insert_all insert_sorted [5, 3, 4, 1, 2] (new_leaf (replicate 128 0)) Stats0)) \<noteq> 12 \<and>
   Nw (snd (insert_all LeafBTreeLog_insert [5, 3, 4, 1, 2] (new_leaf (replicate 32 0)) Stats0)) \<noteq> 12 \<and>
   Nw (snd (insert_all SortedLeaf_insert [5, 3, 4, 1, 2] [] Stats0)) \<noteq> 12"
  by code_simp

subsection \<open>The mixed-workload driver\<close>

lemma timed_loop_reads_only:
  assumes srch: "\<And>k L s. snd (search_op T k L s) = s"
    and rd: "\<And>g. \<not> fst (dist01 R g) < wr"
  shows "fst (timed_loop T R wr n (leaf, st, g)) = leaf \<and>
         fst (snd (timed_loop T R wr n (leaf, st, g))) = st"
proof (induction n arbitrary: g)
  case 0
  then show ?case by simp
next
  case (Suc n)
  obtain r g1 where d: "dist01 R g = (r, g1)" by (cases "dist01 R g")
  obtain key g2 where k: "dist_key R g1 = (key, g2)" by (cases "dist_key R g1")
  obtain found st1 where s: "search_op T key leaf st = (found, st1)"
    by (cases "search_op T key leaf st")
  have "\<not> r < wr" using rd [of g] d by simp
  moreover have "st1 = st" using srch [of key leaf st] s by simp
  ultimately show ?case using Suc.IH [of g2] d k s by simp
qed

lemma timed_loop_cong:
  assumes "\<And>g. (fst (dist01 R g) < wr) = (fst (dist01 R g) < wr')"
  shows "timed_loop T R wr n st = timed_loop T R wr' n st"
proof (induction n arbitrary: st)
  case 0
  then show ?case by simp
next
  case (Suc n)
  obtain leaf s g where st: "st = (leaf, s, g)" by (cases st)
  obtain r g1 where d: "dist01 R g = (r, g1)" by (cases "dist01 R g")
  have "(r < wr) = (r < wr')" using assms [of g] d by simp
  then show ?case using Suc.IH d st by (simp add: case_prod_beta)
qed

lemma vector_search_meter:
  "snd (UnsortedLeaf_search k xs s) = s" "snd (SortedLeaf_search k xs s) = s"
  "snd (LeafBaseline_search k xs s) = s" "snd (LeafLogging_search k xs s) = s"
  "snd (LeafWBTreeVec_search k xs s) = s" "snd (BzLeaf_search k xs s) = s"
  "snd (SimpleLeaf_search k xs s) = s"
  by (simp_all add: UnsortedLeaf_search_def SortedLeaf_search_def LeafBaseline_search_def
      LeafLogging_search_def LeafWBTreeVec_search_def BzLeaf_search_def SimpleLeaf_search_def)

lemma vector_leaf_search_meter:
  assumes "T \<in> {UnsortedLeaf, SortedLeaf, LeafBaseline, LeafLogging, LeafWBTreeVec, BzLeaf, SimpleLeaf}"
  shows "snd (search_op T k xs s) = s"
  using assms
  by (auto simp: vector_search_meter UnsortedLeaf_def SortedLeaf_def LeafBaseline_def
      LeafLogging_def LeafWBTreeVec_def BzLeaf_def SimpleLeaf_def)

lemma counter_rng_range:
  "0 \<le> fst (dist01 counter_rng g)" "fst (dist01 counter_rng g) < 1"
proof -
  have "g mod 4 < 4" by simp
  then have "real (g mod 4) < 4" by (metis of_nat_less_iff of_nat_numeral)
  then show "fst (dist01 counter_rng g) < 1" by (simp add: counter_rng_def)
  show "0 \<le> fst (dist01 counter_rng g)" by (simp add: counter_rng_def)
qed

lemma vector_leaf_fresh:
  assumes "T \<in> {UnsortedLeaf, SortedLeaf, LeafBaseline, LeafLogging, LeafWBTreeVec, BzLeaf, SimpleLeaf}"
  shows "fresh T = []"
  using assms
  by (auto simp: UnsortedLeaf_def SortedLeaf_def LeafBaseline_def LeafLogging_def
      LeafWBTreeVec_def BzLeaf_def SimpleLeaf_def)

lemma vector_leaf_insert_length:
  assumes "T \<in> {UnsortedLeaf, SortedLeaf, LeafBaseline, LeafLogging, LeafWBTreeVec, BzLeaf, SimpleLeaf}"
  shows "length (fst (insert_op T k xs s)) = Suc (length xs)"
proof -
  have "length (lower_bound_insert k xs) = Suc (length xs)"
    by (simp add: lower_bound_insert_insort)
  then show ?thesis
    using assms
    by (auto simp: UnsortedLeaf_def SortedLeaf_def LeafBaseline_def LeafLogging_def
        LeafWBTreeVec_def BzLeaf_def SimpleLeaf_def UnsortedLeaf_insert_def SortedLeaf_insert_def
        LeafBaseline_insert_def LeafLogging_insert_def LeafWBTreeVec_insert_def BzLeaf_insert_def
        SimpleLeaf_insert_def)
qed

lemma prefill_loop_length:
  assumes "T \<in> {UnsortedLeaf, SortedLeaf, LeafBaseline, LeafLogging, LeafWBTreeVec, BzLeaf, SimpleLeaf}"
  shows "length (fst (prefill_loop T R n (xs, s, g))) = length xs + n"
proof (induction n arbitrary: xs s g)
  case 0
  then show ?case by simp
next
  case (Suc n)
  obtain key g1 where k: "dist_key R g = (key, g1)" by (cases "dist_key R g")
  obtain xs1 s1 where i: "insert_op T key xs s = (xs1, s1)" by (cases "insert_op T key xs s")
  have "length xs1 = Suc (length xs)"
    using vector_leaf_insert_length [OF assms, of key xs s] i by simp
  then show ?case using Suc.IH [of xs1 s1 g1] k i by simp
qed

lemma timed_loop_insert_step:
  assumes "\<And>g. fst (dist01 R g) < wr"
  shows "timed_loop T R wr (Suc n) (leaf, st, g) =
     (let (r, g1) = dist01 R g;
          (key, g2) = dist_key R g1;
          (leaf1, st1) = insert_op T key leaf st
      in timed_loop T R wr n (leaf1, st1, g2))"
proof -
  obtain r g1 where d: "dist01 R g = (r, g1)" by (cases "dist01 R g")
  have "r < wr" using assms [of g] d by simp
  then show ?thesis using d by (simp add: case_prod_beta)
qed

lemma timed_loop_search_step:
  assumes "\<And>g. \<not> fst (dist01 R g) < wr"
  shows "timed_loop T R wr (Suc n) (leaf, st, g) =
     (let (r, g1) = dist01 R g;
          (key, g2) = dist_key R g1;
          (found, st1) = search_op T key leaf st
      in timed_loop T R wr n (leaf, st1, g2))"
proof -
  obtain r g1 where d: "dist01 R g = (r, g1)" by (cases "dist01 R g")
  have "\<not> r < wr" using assms [of g] d by simp
  then show ?thesis using d by (simp add: case_prod_beta)
qed

lemma timed_loop_inserts_length:
  assumes T: "T \<in> {UnsortedLeaf, SortedLeaf, LeafBaseline, LeafLogging, LeafWBTreeVec, BzLeaf, SimpleLeaf}"
    and wr: "\<And>g. fst (dist01 R g) < wr"
  shows "length (fst (timed_loop T R wr n (xs, s, g))) = length xs + n"
proof (induction n arbitrary: xs s g)
  case 0
  then show ?case by simp
next
  case (Suc n)
  obtain r g1 where d: "dist01 R g = (r, g1)" by (cases "dist01 R g")
  obtain key g2 where k: "dist_key R g1 = (key, g2)" by (cases "dist_key R g1")
  obtain xs1 s1 where i: "insert_op T key xs s = (xs1, s1)" by (cases "insert_op T key xs s")
  have "r < wr" using wr [of g] d by simp
  moreover have "length xs1 = Suc (length xs)"
    using vector_leaf_insert_length [OF T, of key xs s] i by simp
  ultimately show ?case using Suc.IH [of xs1 s1 g2] d k i by simp
qed

lemma mixed_workload_eq:
  "mixed_workload rnd seed T R prefill num_ops wr t0 t1 =
     (fst (timed_loop T R wr (unat num_ops)
        (prefill_loop T R (unat prefill) (fresh T, Stats0, seeded R seed))),
      \<lparr>throughput_ops_sec =
         fdiv rnd (rnd (real (unat num_ops))) (elapsed_seconds rnd t0 t1),
       stats = fst (snd (timed_loop T R wr (unat num_ops)
         (prefill_loop T R (unat prefill) (fresh T, Stats0, seeded R seed))))\<rparr>)"
  by (simp add: mixed_workload_def Let_def case_prod_beta)

lemma double_rounding_id: "double_rounding (\<lambda>x. x)"
  by (simp add: double_rounding_def)

lemma elapsed_seconds_same:
  assumes "double_rounding rnd"
  shows "elapsed_seconds rnd t t = 0"
  using assms by (simp add: elapsed_seconds_def double_rounding_def)

lemma elapsed_seconds_pos:
  assumes r: "double_rounding rnd" and lt: "t0 < t1"
  shows "0 < elapsed_seconds rnd t0 t1"
proof -
  have mono: "\<And>x y. x \<le> y \<Longrightarrow> rnd x \<le> rnd y" using r by (simp add: double_rounding_def)
  have "(1 :: real) \<le> real_of_int (t1 - t0)" using lt by simp
  then have "rnd 1 \<le> rnd (real_of_int (t1 - t0))" by (rule mono)
  then have "1 \<le> rnd (real_of_int (t1 - t0))" using r by (simp add: double_rounding_def)
  then have "1 / 1000000000 \<le> rnd (real_of_int (t1 - t0)) / 1000000000"
    by (simp add: divide_le_cancel)
  moreover have "(1 :: real) / 2 ^ 30 \<le> 1 / 1000000000" by simp
  ultimately have "1 / 2 ^ 30 \<le> rnd (real_of_int (t1 - t0)) / 1000000000" by linarith
  then have "rnd (1 / 2 ^ 30) \<le> rnd (rnd (real_of_int (t1 - t0)) / 1000000000)" by (rule mono)
  then have "1 / 2 ^ 30 \<le> elapsed_seconds rnd t0 t1"
    using r by (simp add: double_rounding_def elapsed_seconds_def)
  moreover have "(0 :: real) < 1 / 2 ^ 30" by simp
  ultimately show ?thesis by linarith
qed

lemma elapsed_seconds_neg:
  assumes r: "double_rounding rnd" and lt: "t1 < t0"
  shows "elapsed_seconds rnd t0 t1 < 0"
proof -
  have mono: "\<And>x y. x \<le> y \<Longrightarrow> rnd x \<le> rnd y" using r by (simp add: double_rounding_def)
  have "real_of_int (t1 - t0) \<le> - 1" using lt by simp
  then have "rnd (real_of_int (t1 - t0)) \<le> rnd (- 1)" by (rule mono)
  then have "rnd (real_of_int (t1 - t0)) \<le> - 1" using r by (simp add: double_rounding_def)
  then have "rnd (real_of_int (t1 - t0)) / 1000000000 \<le> - 1 / 1000000000"
    by (simp add: divide_le_cancel)
  moreover have "- 1 / 1000000000 \<le> - ((1 :: real) / 2 ^ 30)" by simp
  ultimately have "rnd (real_of_int (t1 - t0)) / 1000000000 \<le> - (1 / 2 ^ 30)" by linarith
  then have "rnd (rnd (real_of_int (t1 - t0)) / 1000000000) \<le> rnd (- (1 / 2 ^ 30))"
    by (rule mono)
  then have "elapsed_seconds rnd t0 t1 \<le> - (1 / 2 ^ 30)"
    using r by (simp add: double_rounding_def elapsed_seconds_def)
  moreover have "- ((1 :: real) / 2 ^ 30) < 0" by simp
  ultimately show ?thesis by linarith
qed

lemma to_double_count:
  assumes r: "double_rounding rnd"
  shows "0 \<le> rnd (real n)" and "0 < n \<Longrightarrow> 0 < rnd (real n)" and "rnd (real 0) = 0"
proof -
  have mono: "\<And>x y. x \<le> y \<Longrightarrow> rnd x \<le> rnd y" using r by (simp add: double_rounding_def)
  have "rnd 0 \<le> rnd (real n)" by (rule mono) simp
  then show "0 \<le> rnd (real n)" using r by (simp add: double_rounding_def)
  show "rnd (real 0) = 0" using r by (simp add: double_rounding_def)
  assume "0 < n"
  then have "(1 :: real) \<le> real n" by simp
  then have "rnd 1 \<le> rnd (real n)" by (rule mono)
  then show "0 < rnd (real n)" using r by (simp add: double_rounding_def)
qed

lemma rounded_sign:
  assumes r: "double_rounding rnd"
  shows "0 \<le> q \<Longrightarrow> 0 \<le> rnd q" and "q \<le> 0 \<Longrightarrow> rnd q \<le> 0"
proof -
  have mono: "\<And>x y. x \<le> y \<Longrightarrow> rnd x \<le> rnd y" using r by (simp add: double_rounding_def)
  have z: "rnd 0 = 0" using r by (simp add: double_rounding_def)
  show "0 \<le> q \<Longrightarrow> 0 \<le> rnd q" using mono [of 0 q] z by simp
  show "q \<le> 0 \<Longrightarrow> rnd q \<le> 0" using mono [of q 0] z by simp
qed

text \<open>
  C9. No search changes the meter: each \<open>search\<close> member returns the meter it was given.
  Hence, with a random source whose reals are never negative (as those of
  \<^verbatim>\<open>uniform_real_distribution(0.0, 1.0)\<close>), a mixed-workload run with write ratio 0 performs
  only searches in its timed phase: the counters it returns, and the leaf, are those the
  prefill phase left.
\<close>

theorem reads_leave_meter:
  "snd (UnsortedLeaf_search k xs s) = s \<and> snd (SortedLeaf_search k xs s) = s \<and>
   snd (LeafBaseline_search k xs s) = s \<and> snd (LeafLogging_search k xs s) = s \<and>
   snd (LeafWBTreeVec_search k xs s) = s \<and> snd (BzLeaf_search k xs s) = s \<and>
   snd (SimpleLeaf_search k xs s) = s \<and>
   snd (LeafBTreeVolatile_search k L s) = s \<and> snd (LeafBTreeLog_search k L s) = s \<and>
   snd (LeafWBTree_search k L s) = s \<and>
   ((\<forall>g. 0 \<le> fst (dist01 R g)) \<and>
    T \<in> {UnsortedLeaf, SortedLeaf, LeafBaseline, LeafLogging, LeafWBTreeVec, BzLeaf, SimpleLeaf} \<longrightarrow>
      stats (snd (mixed_workload rnd seed T R prefill num_ops 0 t0 t1)) =
        fst (snd (prefill_loop T R (unat prefill) (fresh T, Stats0, seeded R seed))) \<and>
      fst (mixed_workload rnd seed T R prefill num_ops 0 t0 t1) =
        fst (prefill_loop T R (unat prefill) (fresh T, Stats0, seeded R seed)))"
proof -
  have run: "stats (snd (mixed_workload rnd seed T R prefill num_ops 0 t0 t1)) =
        fst (snd (prefill_loop T R (unat prefill) (fresh T, Stats0, seeded R seed))) \<and>
      fst (mixed_workload rnd seed T R prefill num_ops 0 t0 t1) =
        fst (prefill_loop T R (unat prefill) (fresh T, Stats0, seeded R seed))"
    if r: "\<forall>g. 0 \<le> fst (dist01 R g)"
      and T: "T \<in> {UnsortedLeaf, SortedLeaf, LeafBaseline, LeafLogging, LeafWBTreeVec, BzLeaf, SimpleLeaf}"
  proof -
    obtain leaf st g where
      p: "prefill_loop T R (unat prefill) (fresh T, Stats0, seeded R seed) = (leaf, st, g)"
      by (cases "prefill_loop T R (unat prefill) (fresh T, Stats0, seeded R seed)")
    have nw: "\<And>g. \<not> fst (dist01 R g) < 0" using r by (simp add: not_less)
    have "fst (timed_loop T R 0 (unat num_ops) (leaf, st, g)) = leaf \<and>
          fst (snd (timed_loop T R 0 (unat num_ops) (leaf, st, g))) = st"
      using timed_loop_reads_only [of T R 0 "unat num_ops" leaf st g]
        vector_leaf_search_meter [OF T] nw by blast
    then show ?thesis
      using p by (simp add: mixed_workload_eq)
  qed
  show ?thesis
    using run
    by (simp add: vector_search_meter LeafBTreeVolatile_search_def LeafBTreeLog_search_def
        LeafWBTree_search_def)
qed

theorem reads_leave_meter_witness:
  "(\<forall>g. 0 \<le> fst (dist01 counter_rng g)) \<and>
   UnsortedLeaf \<in> {UnsortedLeaf, SortedLeaf, LeafBaseline, LeafLogging, LeafWBTreeVec, BzLeaf, SimpleLeaf} \<and>
   stats (snd (mixed_workload (\<lambda>x. x) 123 UnsortedLeaf counter_rng 22 100000 0 0 1000)) =
     fst (snd (prefill_loop UnsortedLeaf counter_rng (unat (22 :: u64))
       (fresh UnsortedLeaf, Stats0, seeded counter_rng 123)))"
proof -
  have h: "\<forall>g. 0 \<le> fst (dist01 counter_rng g)"
    "UnsortedLeaf \<in> {UnsortedLeaf, SortedLeaf, LeafBaseline, LeafLogging, LeafWBTreeVec, BzLeaf, SimpleLeaf}"
    by (simp_all add: counter_rng_range)
  show ?thesis
    using h reads_leave_meter [of 0 "[]" Stats0 "new_leaf []" counter_rng UnsortedLeaf "\<lambda>x. x"
        123 22 100000 0 1000]
    by blast
qed

text \<open>
  C5. For a fixed seed, leaf type, random source, prefill count, operation count and write
  ratio, two runs of the driver return the same three counters and leave the same leaf,
  whatever the clock readings of the two runs are; only the throughput depends on the clock.
  The three drivers (seeds 42, 123 and 321) are covered.
\<close>

theorem counters_deterministic:
  "stats (snd (mixed_workload rnd seed T R prefill num_ops write_ratio t0 t1)) =
     stats (snd (mixed_workload rnd seed T R prefill num_ops write_ratio t0' t1')) \<and>
   fst (mixed_workload rnd seed T R prefill num_ops write_ratio t0 t1) =
     fst (mixed_workload rnd seed T R prefill num_ops write_ratio t0' t1') \<and>
   stats (snd (run_mixed_workload_article1 rnd T R prefill num_ops write_ratio t0 t1)) =
     stats (snd (run_mixed_workload_article1 rnd T R prefill num_ops write_ratio t0' t1')) \<and>
   fst (run_mixed_workload_article1 rnd T R prefill num_ops write_ratio t0 t1) =
     fst (run_mixed_workload_article1 rnd T R prefill num_ops write_ratio t0' t1') \<and>
   stats (snd (run_mixed_workload_article2 rnd T R prefill num_ops write_ratio t0 t1)) =
     stats (snd (run_mixed_workload_article2 rnd T R prefill num_ops write_ratio t0' t1')) \<and>
   fst (run_mixed_workload_article2 rnd T R prefill num_ops write_ratio t0 t1) =
     fst (run_mixed_workload_article2 rnd T R prefill num_ops write_ratio t0' t1') \<and>
   stats (snd (run_mixed_workload_article3 rnd T R prefill num_ops write_ratio t0 t1)) =
     stats (snd (run_mixed_workload_article3 rnd T R prefill num_ops write_ratio t0' t1')) \<and>
   fst (run_mixed_workload_article3 rnd T R prefill num_ops write_ratio t0 t1) =
     fst (run_mixed_workload_article3 rnd T R prefill num_ops write_ratio t0' t1')"
  by (simp add: run_mixed_workload_article1_def run_mixed_workload_article2_def
      run_mixed_workload_article3_def mixed_workload_eq)

theorem counters_deterministic_witness:
  "stats (snd (run_mixed_workload_article1 (\<lambda>x. x) SortedLeaf counter_rng 3 4 (1 / 2) 0 1000)) =
     stats (snd (run_mixed_workload_article1 (\<lambda>x. x) SortedLeaf counter_rng 3 4 (1 / 2) 0 2000)) \<and>
   fst (run_mixed_workload_article1 (\<lambda>x. x) SortedLeaf counter_rng 3 4 (1 / 2) 0 1000) =
     fst (run_mixed_workload_article1 (\<lambda>x. x) SortedLeaf counter_rng 3 4 (1 / 2) 0 2000) \<and>
   throughput_ops_sec (snd (run_mixed_workload_article1 (\<lambda>x. x) SortedLeaf counter_rng 3 4 (1 / 2) 0 1000)) \<noteq>
     throughput_ops_sec (snd (run_mixed_workload_article1 (\<lambda>x. x) SortedLeaf counter_rng 3 4 (1 / 2) 0 2000))"
proof -
  have "throughput_ops_sec (snd (run_mixed_workload_article1 (\<lambda>x. x) SortedLeaf counter_rng 3 4 (1 / 2) 0 1000)) \<noteq>
     throughput_ops_sec (snd (run_mixed_workload_article1 (\<lambda>x. x) SortedLeaf counter_rng 3 4 (1 / 2) 0 2000))"
    by (simp add: run_mixed_workload_article1_def mixed_workload_eq fdiv_def elapsed_seconds_def)
  then show ?thesis
    using counters_deterministic [of "\<lambda>x. x" 42 SortedLeaf counter_rng 3 4 "1 / 2" 0 1000 0 2000]
    by blast
qed

lemma throughput_eq:
  "throughput_ops_sec (snd (mixed_workload rnd seed T R prefill num_ops wr t0 t1)) =
     insert_throughput rnd (unat num_ops) t0 t1"
  by (simp add: mixed_workload_eq insert_throughput_def)

lemma insert_throughput_cases:
  assumes r: "double_rounding rnd"
  shows "t1 = t0 \<Longrightarrow> 0 < n \<Longrightarrow> insert_throughput rnd n t0 t1 = PlusInf"
    and "t1 = t0 \<Longrightarrow> n = 0 \<Longrightarrow> insert_throughput rnd n t0 t1 = NaN"
    and "t0 < t1 \<Longrightarrow> \<exists>v. insert_throughput rnd n t0 t1 = Finite v \<and> 0 \<le> v"
    and "t1 < t0 \<Longrightarrow> \<exists>v. insert_throughput rnd n t0 t1 = Finite v \<and> v \<le> 0"
proof -
  show "t1 = t0 \<Longrightarrow> 0 < n \<Longrightarrow> insert_throughput rnd n t0 t1 = PlusInf"
    using elapsed_seconds_same [OF r, of t0] to_double_count(2) [OF r, of n]
    by (simp add: insert_throughput_def fdiv_def)
  show "t1 = t0 \<Longrightarrow> n = 0 \<Longrightarrow> insert_throughput rnd n t0 t1 = NaN"
    using elapsed_seconds_same [OF r, of t0] to_double_count(3) [OF r]
    by (simp add: insert_throughput_def fdiv_def)
  show "\<exists>v. insert_throughput rnd n t0 t1 = Finite v \<and> 0 \<le> v" if "t0 < t1"
  proof -
    have e: "0 < elapsed_seconds rnd t0 t1" using elapsed_seconds_pos [OF r that] .
    have "0 \<le> rnd (real n) / elapsed_seconds rnd t0 t1"
      using e to_double_count(1) [OF r, of n] by simp
    then have "0 \<le> rnd (rnd (real n) / elapsed_seconds rnd t0 t1)"
      by (rule rounded_sign(1) [OF r])
    then show ?thesis using e by (simp add: insert_throughput_def fdiv_def)
  qed
  show "\<exists>v. insert_throughput rnd n t0 t1 = Finite v \<and> v \<le> 0" if "t1 < t0"
  proof -
    have e: "elapsed_seconds rnd t0 t1 < 0" using elapsed_seconds_neg [OF r that] .
    have "rnd (real n) / elapsed_seconds rnd t0 t1 \<le> 0"
      using e to_double_count(1) [OF r, of n] by (simp add: divide_nonneg_neg)
    then have "rnd (rnd (real n) / elapsed_seconds rnd t0 t1) \<le> 0"
      by (rule rounded_sign(2) [OF r])
    then show ?thesis using e by (simp add: insert_throughput_def fdiv_def)
  qed
qed

text \<open>
  C7, as the code has it. The driver divides the operation count by the measured duration
  with no guard and no failure path, as do the insert benchmarks. With a rounding to double
  that is monotone and exact at 0, 1, -1 and plus and minus \<open>2 ^ -30\<close>: for a zero duration
  the throughput is plus infinity when the operation count is positive and not-a-number when
  it is zero; for a positive duration it is a finite double that is not negative; for a
  negative duration it is a finite double that is not positive.
\<close>

theorem throughput_unguarded:
  "throughput_ops_sec (snd (mixed_workload rnd seed T R prefill num_ops wr t0 t1)) =
     insert_throughput rnd (unat num_ops) t0 t1 \<and>
   (double_rounding rnd \<longrightarrow>
      (t1 = t0 \<and> 0 < n \<longrightarrow> insert_throughput rnd n t0 t1 = PlusInf) \<and>
      (t1 = t0 \<and> n = 0 \<longrightarrow> insert_throughput rnd n t0 t1 = NaN) \<and>
      (t0 < t1 \<longrightarrow> (\<exists>v. insert_throughput rnd n t0 t1 = Finite v \<and> 0 \<le> v)) \<and>
      (t1 < t0 \<longrightarrow> (\<exists>v. insert_throughput rnd n t0 t1 = Finite v \<and> v \<le> 0)))"
proof -
  have "(t1 = t0 \<and> 0 < n \<longrightarrow> insert_throughput rnd n t0 t1 = PlusInf) \<and>
      (t1 = t0 \<and> n = 0 \<longrightarrow> insert_throughput rnd n t0 t1 = NaN) \<and>
      (t0 < t1 \<longrightarrow> (\<exists>v. insert_throughput rnd n t0 t1 = Finite v \<and> 0 \<le> v)) \<and>
      (t1 < t0 \<longrightarrow> (\<exists>v. insert_throughput rnd n t0 t1 = Finite v \<and> v \<le> 0))"
    if r: "double_rounding rnd"
    using insert_throughput_cases(1) [OF r, of t1 t0 n] insert_throughput_cases(2) [OF r, of t1 t0 n]
      insert_throughput_cases(3) [OF r, of t0 t1 n] insert_throughput_cases(4) [OF r, of t1 t0 n]
    by simp
  then show ?thesis by (simp add: throughput_eq)
qed

theorem throughput_unguarded_witness:
  "double_rounding (\<lambda>x. x) \<and>
   (7 :: int) = 7 \<and> (0 :: nat) < 4 \<and> insert_throughput (\<lambda>x. x) 4 7 7 = PlusInf \<and>
   insert_throughput (\<lambda>x. x) 0 7 7 = NaN \<and>
   (0 :: int) < 1000 \<and> (\<exists>v. insert_throughput (\<lambda>x. x) 4 0 1000 = Finite v \<and> 0 \<le> v) \<and>
   (5 :: int) < 7 \<and> (\<exists>v. insert_throughput (\<lambda>x. x) 4 7 5 = Finite v \<and> v \<le> 0) \<and>
   throughput_ops_sec (snd (mixed_workload (\<lambda>x. x) 42 SortedLeaf counter_rng 3 4 (1 / 2) 7 7)) = PlusInf"
proof -
  have n4: "unat (4 :: u64) = 4" by simp
  show ?thesis
    using double_rounding_id
      throughput_unguarded [of "\<lambda>x. x" 42 SortedLeaf counter_rng 3 4 "1 / 2" 7 7 4]
      throughput_unguarded [of "\<lambda>x. x" 42 SortedLeaf counter_rng 3 4 "1 / 2" 7 7 0]
      throughput_unguarded [of "\<lambda>x. x" 42 SortedLeaf counter_rng 3 4 "1 / 2" 0 1000 4]
      throughput_unguarded [of "\<lambda>x. x" 42 SortedLeaf counter_rng 3 4 "1 / 2" 7 5 4]
    by (simp add: n4)
qed

text \<open>
  The claim as stated fails: with equal clock readings the driver returns a result whose
  throughput is infinite (or not a number, for zero operations), and so does \<^verbatim>\<open>OPS / secs\<close>.
  (The duration 0 and the counts 4, 0 and 100000 are doubles: no rounding takes place.)
\<close>

theorem throughput_unguarded_counterexample:
  "throughput_ops_sec (snd (run_mixed_workload_article1 (\<lambda>x. x) SortedLeaf counter_rng 3 4 (1 / 2) 7 7)) = PlusInf \<and>
   throughput_ops_sec (snd (run_mixed_workload_article1 (\<lambda>x. x) SortedLeaf counter_rng 3 0 (1 / 2) 7 7)) = NaN \<and>
   insert_throughput (\<lambda>x. x) 100000 7 7 = PlusInf"
  by (simp add: run_mixed_workload_article1_def throughput_eq insert_throughput_def fdiv_def
      elapsed_seconds_def)

text \<open>
  C8, as the code has it. The driver checks nothing about its configuration and always runs.
  With an operation count of zero the timed loop is empty and the result carries the counters
  of the prefill phase and the throughput \<open>0 / elapsed\<close>. With a random source whose reals
  lie in \<open>[0, 1)\<close>, a write ratio of 1 or more makes every iteration of the timed loop an
  insert: the run equals the run with write ratio 1, and a vector-backed leaf ends with as
  many keys as the prefill count and the operation count together. A write ratio of 0 or
  less makes every iteration a search: the run equals the run with write ratio 0, and the
  leaf and the counters are those the prefill phase left.
\<close>

theorem no_configuration_check:
  "snd (mixed_workload rnd seed T R prefill 0 wr t0 t1) =
     \<lparr>throughput_ops_sec = fdiv rnd (rnd 0) (elapsed_seconds rnd t0 t1),
      stats = fst (snd (prefill_loop T R (unat prefill) (fresh T, Stats0, seeded R seed)))\<rparr> \<and>
   ((\<forall>g. fst (dist01 R g) < 1) \<and> 1 \<le> wr \<longrightarrow>
      mixed_workload rnd seed T R prefill num_ops wr t0 t1 =
        mixed_workload rnd seed T R prefill num_ops 1 t0 t1 \<and>
      timed_loop T R wr (Suc n) (leaf, st, g) =
        (let (r, g1) = dist01 R g;
             (key, g2) = dist_key R g1;
             (leaf1, st1) = insert_op T key leaf st
         in timed_loop T R wr n (leaf1, st1, g2)) \<and>
      (T \<in> {UnsortedLeaf, SortedLeaf, LeafBaseline, LeafLogging, LeafWBTreeVec, BzLeaf, SimpleLeaf} \<longrightarrow>
         length (fst (mixed_workload rnd seed T R prefill num_ops wr t0 t1)) =
           unat prefill + unat num_ops)) \<and>
   ((\<forall>g. 0 \<le> fst (dist01 R g)) \<and> wr \<le> 0 \<longrightarrow>
      mixed_workload rnd seed T R prefill num_ops wr t0 t1 =
        mixed_workload rnd seed T R prefill num_ops 0 t0 t1 \<and>
      timed_loop T R wr (Suc n) (leaf, st, g) =
        (let (r, g1) = dist01 R g;
             (key, g2) = dist_key R g1;
             (found, st1) = search_op T key leaf st
         in timed_loop T R wr n (leaf, st1, g2)) \<and>
      (T \<in> {UnsortedLeaf, SortedLeaf, LeafBaseline, LeafLogging, LeafWBTreeVec, BzLeaf, SimpleLeaf} \<longrightarrow>
         fst (mixed_workload rnd seed T R prefill num_ops wr t0 t1) =
           fst (prefill_loop T R (unat prefill) (fresh T, Stats0, seeded R seed)) \<and>
         stats (snd (mixed_workload rnd seed T R prefill num_ops wr t0 t1)) =
           fst (snd (prefill_loop T R (unat prefill) (fresh T, Stats0, seeded R seed)))))"
proof -
  let ?filled = "prefill_loop T R (unat prefill) (fresh T, Stats0, seeded R seed)"
  have a: "snd (mixed_workload rnd seed T R prefill 0 wr t0 t1) =
     \<lparr>throughput_ops_sec = fdiv rnd (rnd 0) (elapsed_seconds rnd t0 t1),
      stats = fst (snd ?filled)\<rparr>"
    by (simp add: mixed_workload_eq)
  have b: "mixed_workload rnd seed T R prefill num_ops wr t0 t1 =
        mixed_workload rnd seed T R prefill num_ops 1 t0 t1 \<and>
      timed_loop T R wr (Suc n) (leaf, st, g) =
        (let (r, g1) = dist01 R g;
             (key, g2) = dist_key R g1;
             (leaf1, st1) = insert_op T key leaf st
         in timed_loop T R wr n (leaf1, st1, g2)) \<and>
      (T \<in> {UnsortedLeaf, SortedLeaf, LeafBaseline, LeafLogging, LeafWBTreeVec, BzLeaf, SimpleLeaf} \<longrightarrow>
         length (fst (mixed_workload rnd seed T R prefill num_ops wr t0 t1)) =
           unat prefill + unat num_ops)"
    if h: "\<forall>g. fst (dist01 R g) < 1" "1 \<le> wr"
  proof -
    have w: "\<And>g. fst (dist01 R g) < wr" using h by (meson less_le_trans)
    then have "\<And>g. (fst (dist01 R g) < wr) = (fst (dist01 R g) < 1)" using h by simp
    then have "\<And>n st. timed_loop T R wr n st = timed_loop T R 1 n st"
      by (rule timed_loop_cong)
    then have b1: "mixed_workload rnd seed T R prefill num_ops wr t0 t1 =
        mixed_workload rnd seed T R prefill num_ops 1 t0 t1"
      by (simp add: mixed_workload_eq)
    have b2: "timed_loop T R wr (Suc n) (leaf, st, g) =
        (let (r, g1) = dist01 R g;
             (key, g2) = dist_key R g1;
             (leaf1, st1) = insert_op T key leaf st
         in timed_loop T R wr n (leaf1, st1, g2))"
      using w by (rule timed_loop_insert_step)
    have b3: "length (fst (mixed_workload rnd seed T R prefill num_ops wr t0 t1)) =
           unat prefill + unat num_ops"
      if T: "T \<in> {UnsortedLeaf, SortedLeaf, LeafBaseline, LeafLogging, LeafWBTreeVec, BzLeaf, SimpleLeaf}"
    proof -
      obtain xs s1 g1 where p: "?filled = (xs, s1, g1)" by (cases ?filled)
      have "length xs = unat prefill"
        using prefill_loop_length [OF T, of R "unat prefill" "fresh T" Stats0 "seeded R seed"] p
          vector_leaf_fresh [OF T]
        by simp
      then show ?thesis
        using timed_loop_inserts_length [OF T w, of "unat num_ops" xs s1 g1] p
        by (simp add: mixed_workload_eq)
    qed
    show ?thesis using b1 b2 b3 by blast
  qed
  have c: "mixed_workload rnd seed T R prefill num_ops wr t0 t1 =
        mixed_workload rnd seed T R prefill num_ops 0 t0 t1 \<and>
      timed_loop T R wr (Suc n) (leaf, st, g) =
        (let (r, g1) = dist01 R g;
             (key, g2) = dist_key R g1;
             (found, st1) = search_op T key leaf st
         in timed_loop T R wr n (leaf, st1, g2)) \<and>
      (T \<in> {UnsortedLeaf, SortedLeaf, LeafBaseline, LeafLogging, LeafWBTreeVec, BzLeaf, SimpleLeaf} \<longrightarrow>
         fst (mixed_workload rnd seed T R prefill num_ops wr t0 t1) = fst ?filled \<and>
         stats (snd (mixed_workload rnd seed T R prefill num_ops wr t0 t1)) = fst (snd ?filled))"
    if h: "\<forall>g. 0 \<le> fst (dist01 R g)" "wr \<le> 0"
  proof -
    have w: "\<And>g. \<not> fst (dist01 R g) < wr" using h by (meson less_le_trans not_less)
    have "(fst (dist01 R g) < wr) = (fst (dist01 R g) < 0)" for g
    proof -
      have "\<not> fst (dist01 R g) < 0" using h(1) by (simp add: not_less)
      then show ?thesis using w [of g] by simp
    qed
    then have "\<And>n st. timed_loop T R wr n st = timed_loop T R 0 n st"
      by (rule timed_loop_cong)
    then have c1: "mixed_workload rnd seed T R prefill num_ops wr t0 t1 =
        mixed_workload rnd seed T R prefill num_ops 0 t0 t1"
      by (simp add: mixed_workload_eq)
    have c2: "timed_loop T R wr (Suc n) (leaf, st, g) =
        (let (r, g1) = dist01 R g;
             (key, g2) = dist_key R g1;
             (found, st1) = search_op T key leaf st
         in timed_loop T R wr n (leaf, st1, g2))"
      using w by (rule timed_loop_search_step)
    have c3: "fst (mixed_workload rnd seed T R prefill num_ops wr t0 t1) = fst ?filled \<and>
         stats (snd (mixed_workload rnd seed T R prefill num_ops wr t0 t1)) = fst (snd ?filled)"
      if T: "T \<in> {UnsortedLeaf, SortedLeaf, LeafBaseline, LeafLogging, LeafWBTreeVec, BzLeaf, SimpleLeaf}"
    proof -
      obtain xs s1 g1 where p: "?filled = (xs, s1, g1)" by (cases ?filled)
      have "fst (timed_loop T R wr (unat num_ops) (xs, s1, g1)) = xs \<and>
            fst (snd (timed_loop T R wr (unat num_ops) (xs, s1, g1))) = s1"
        using timed_loop_reads_only [of T R wr "unat num_ops" xs s1 g1]
          vector_leaf_search_meter [OF T] w by blast
      then show ?thesis using p by (simp add: mixed_workload_eq)
    qed
    show ?thesis using c1 c2 c3 by blast
  qed
  show ?thesis using a b c by blast
qed

theorem no_configuration_check_witness:
  "(\<forall>g. fst (dist01 counter_rng g) < 1) \<and> (1 :: real) \<le> 2 \<and>
   (\<forall>g. 0 \<le> fst (dist01 counter_rng g)) \<and> (- 1 :: real) \<le> 0 \<and>
   LeafBaseline \<in> {UnsortedLeaf, SortedLeaf, LeafBaseline, LeafLogging, LeafWBTreeVec, BzLeaf, SimpleLeaf} \<and>
   mixed_workload (\<lambda>x. x) 123 LeafBaseline counter_rng 3 4 2 0 1000 =
     mixed_workload (\<lambda>x. x) 123 LeafBaseline counter_rng 3 4 1 0 1000 \<and>
   length (fst (mixed_workload (\<lambda>x. x) 123 LeafBaseline counter_rng 3 4 2 0 1000)) =
     unat (3 :: u64) + unat (4 :: u64) \<and>
   mixed_workload (\<lambda>x. x) 123 LeafBaseline counter_rng 3 4 (- 1) 0 1000 =
     mixed_workload (\<lambda>x. x) 123 LeafBaseline counter_rng 3 4 0 0 1000 \<and>
   fst (mixed_workload (\<lambda>x. x) 123 LeafBaseline counter_rng 3 4 (- 1) 0 1000) =
     fst (prefill_loop LeafBaseline counter_rng (unat (3 :: u64))
       (fresh LeafBaseline, Stats0, seeded counter_rng 123))"
proof -
  have h: "\<forall>g. fst (dist01 counter_rng g) < 1" "(1 :: real) \<le> 2"
    "\<forall>g. 0 \<le> fst (dist01 counter_rng g)" "(- 1 :: real) \<le> 0"
    "LeafBaseline \<in> {UnsortedLeaf, SortedLeaf, LeafBaseline, LeafLogging, LeafWBTreeVec, BzLeaf, SimpleLeaf}"
    by (simp_all add: counter_rng_range)
  show ?thesis
    using h
      no_configuration_check [of "\<lambda>x. x" 123 LeafBaseline counter_rng 3 2 0 1000 4 0 "[]" Stats0 0]
      no_configuration_check [of "\<lambda>x. x" 123 LeafBaseline counter_rng 3 "- 1" 0 1000 4 0 "[]" Stats0 0]
    by blast
qed

lemma mixed_workload_counts:
  assumes "unat prefill = p" and "unat num_ops = n"
  shows "stats (snd (mixed_workload rnd seed T R prefill num_ops wr t0 t1)) =
     fst (snd (timed_loop T R wr n (prefill_loop T R p (fresh T, Stats0, seeded R seed))))"
  using assms by (simp add: mixed_workload_eq)

text \<open>
  The claim as stated fails: with a write ratio of 2, of -1, or with no operation at all,
  the driver returns an ordinary result. With one prefilled key and two operations, the
  counters show three inserts at write ratio 2 and one insert at write ratio -1.
\<close>

theorem no_configuration_check_counterexample:
  "stats (snd (run_mixed_workload_article2 (\<lambda>x. x) LeafBaseline counter_rng 1 2 2 0 1000)) =
     \<lparr>Nw = 12, Nclf = 6, Nmf = 3\<rparr> \<and>
   stats (snd (run_mixed_workload_article2 (\<lambda>x. x) LeafBaseline counter_rng 1 2 (- 1) 0 1000)) =
     \<lparr>Nw = 4, Nclf = 2, Nmf = 1\<rparr> \<and>
   stats (snd (run_mixed_workload_article2 (\<lambda>x. x) LeafBaseline counter_rng 1 0 (1 / 2) 0 1000)) =
     \<lparr>Nw = 4, Nclf = 2, Nmf = 1\<rparr>"
proof -
  have u: "unat (1 :: u64) = Suc 0" "unat (2 :: u64) = Suc (Suc 0)" "unat (0 :: u64) = 0"
    by simp_all
  show ?thesis
    unfolding run_mixed_workload_article2_def
      mixed_workload_counts [OF u(1) u(2)] mixed_workload_counts [OF u(1) u(3)]
    by (simp add: LeafBaseline_def counter_rng_def LeafBaseline_insert_def LeafBaseline_search_def
        charge_def Stats0_def)
qed

end
